theory Spec2Isabelle
  imports Main "HOL-Library.Multiset"
begin

section \<open>Query planner: data model\<close>

text \<open>
  The planner's vocabulary, as the planner source uses it. Only the fields that the
  planner reads are kept. The literal of a condition (\<open>Value\<close>) is never inspected by
  the planner and stays a type parameter.
\<close>

datatype CompOp = OP_EQ | OP_NE | OP_LT | OP_GT | OP_LE | OP_GE

record TabCol =
  tab_name :: string
  col_name :: string

record 'v Condition =
  lhs_col :: TabCol
  op :: CompOp
  is_rhs_val :: bool
  rhs_col :: TabCol
  rhs_val :: 'v

record ColMeta =
  tab_name :: string
  name :: string

record IndexMeta =
  cols :: "ColMeta list"

record TabMeta =
  name :: string
  cols :: "ColMeta list"
  indexes :: "IndexMeta list"

text \<open>
  Outcomes that are not a normal return. \<open>RMDBError\<close> and \<open>InternalError\<close> are the
  exceptions the planner throws. The other two mark places where the C++ source has no
  defined result, and the model stops there instead of inventing one: \<open>OutOfRange\<close> is an
  index past the end of a \<open>std::vector\<close>, and \<open>NullDeref\<close> a member access through a
  null pointer.
\<close>

datatype planner_error = RMDBError string | InternalError string | OutOfRange | NullDeref

section \<open>Query planner: index selection (\<open>Planner::get_index_cols\<close>)\<close>

text \<open>
  The first loop fills \<open>eq_index_map\<close> and \<open>neq_index_map\<close>: the position of the
  (last) condition on each column name, equality conditions in the first map and all
  other conditions in the second.
\<close>

definition parse_conds :: "'v Condition list \<Rightarrow> (string \<rightharpoonup> nat) \<times> (string \<rightharpoonup> nat)" where
  "parse_conds curr_conds =
     fold (\<lambda>i (eq_index_map, neq_index_map).
             if op (curr_conds ! i) = OP_EQ
             then (eq_index_map(col_name (lhs_col (curr_conds ! i)) \<mapsto> i), neq_index_map)
             else (eq_index_map, neq_index_map(col_name (lhs_col (curr_conds ! i)) \<mapsto> i)))
          [0..<length curr_conds] (Map.empty, Map.empty)"

text \<open>
  The inner loop over the key columns of one index, with its two \<open>break\<close>s; the last
  argument is \<open>len\<close>.
\<close>

fun match_len :: "(string \<rightharpoonup> nat) \<Rightarrow> (string \<rightharpoonup> nat) \<Rightarrow> ColMeta list \<Rightarrow> nat \<Rightarrow> nat" where
  "match_len eq_index_map neq_index_map [] len = len"
| "match_len eq_index_map neq_index_map (c # cs) len =
     (if eq_index_map (ColMeta.name c) \<noteq> None then match_len eq_index_map neq_index_map cs (len + 1)
      else if neq_index_map (ColMeta.name c) \<noteq> None then len + 1
      else len)"

text \<open>
  The outer loop over the indexes of the table. The state is
  \<open>(max_left_match_index, max_left_match_len)\<close>, starting at \<open>(-1, 0)\<close>.
\<close>

definition max_left_match ::
  "(string \<rightharpoonup> nat) \<Rightarrow> (string \<rightharpoonup> nat) \<Rightarrow> IndexMeta list \<Rightarrow> int \<times> nat" where
  "max_left_match eq_index_map neq_index_map ixs =
     fold (\<lambda>i (max_left_match_index, max_left_match_len).
             let len = match_len eq_index_map neq_index_map (IndexMeta.cols (ixs ! i)) 0
             in if len > max_left_match_len then (int i, len)
                else (max_left_match_index, max_left_match_len))
          [0..<length ixs] (- 1, 0)"

text \<open>
  The positions, in the condition list, of the conditions matched by the first
  \<open>max_left_match_len\<close> key columns (\<open>left_match_index\<close>).
\<close>

definition left_match ::
  "(string \<rightharpoonup> nat) \<Rightarrow> (string \<rightharpoonup> nat) \<Rightarrow> ColMeta list \<Rightarrow> nat \<Rightarrow> nat list" where
  "left_match eq_index_map neq_index_map cs max_left_match_len =
     fold (\<lambda>i left_match_index.
             case eq_index_map (ColMeta.name (cs ! i)) of
               Some k \<Rightarrow> left_match_index @ [k]
             | None \<Rightarrow> (case neq_index_map (ColMeta.name (cs ! i)) of
                          Some k \<Rightarrow> left_match_index @ [k]
                        | None \<Rightarrow> left_match_index))
          [0..<max_left_match_len] []"

text \<open>
  \<open>new_conds.push_back(std::move(curr_conds[k]))\<close> for each \<open>k\<close> of a list of positions:
  the condition at position \<open>k\<close> is appended to \<open>new_conds\<close> and the move leaves
  \<open>curr_conds[k]\<close> behind as a valid object whose content C++ does not specify (its
  strings in particular). That content is the parameter \<open>moved_from\<close>, a function of the
  condition moved. A position that occurs twice in the list is moved twice: the second
  time the object left behind by the first move is appended.
\<close>

fun move_conds ::
  "('v Condition \<Rightarrow> 'v Condition) \<Rightarrow> 'v Condition list \<Rightarrow> nat list \<Rightarrow> 'v Condition list
     \<Rightarrow> planner_error + ('v Condition list \<times> 'v Condition list)" where
  "move_conds moved_from curr_conds [] new_conds = Inr (curr_conds, new_conds)"
| "move_conds moved_from curr_conds (k # ks) new_conds =
     (if k < length curr_conds
      then move_conds moved_from (curr_conds[k := moved_from (curr_conds ! k)]) ks
             (new_conds @ [curr_conds ! k])
      else Inl OutOfRange)"

text \<open>
  \<open>get_index_cols\<close>. The catalog lookup \<open>sm_manager_->db_.get_table\<close> is the parameter
  \<open>get_table\<close>. The result is the returned flag, the new content of \<open>curr_conds\<close> and
  the new content of \<open>index_col_names\<close> (which the function clears first). The first
  \<open>move_conds\<close> is the loop over \<open>left_match_index\<close>, the second one the loop over the
  positions that are not in \<open>left_match_index_set\<close>.
\<close>

definition get_index_cols ::
  "('v Condition \<Rightarrow> 'v Condition) \<Rightarrow> (string \<Rightarrow> TabMeta) \<Rightarrow> string \<Rightarrow> 'v Condition list
     \<Rightarrow> planner_error + (bool \<times> 'v Condition list \<times> string list)" where
  "get_index_cols moved_from get_table tab_nm curr_conds =
     (let tab = get_table tab_nm;
          (eq_index_map, neq_index_map) = parse_conds curr_conds;
          (max_left_match_index, max_left_match_len) =
             max_left_match eq_index_map neq_index_map (indexes tab)
      in if max_left_match_index = - 1 then Inr (False, curr_conds, [])
         else
           let ix = indexes tab ! nat max_left_match_index;
               index_col_names = map ColMeta.name (IndexMeta.cols ix);
               left_match_index =
                 left_match eq_index_map neq_index_map (IndexMeta.cols ix) max_left_match_len
           in case move_conds moved_from curr_conds left_match_index [] of
                Inl e \<Rightarrow> Inl e
              | Inr (curr_conds1, new_conds1) \<Rightarrow>
                  (case move_conds moved_from curr_conds1
                          (filter (\<lambda>i. i \<notin> set left_match_index) [0..<length curr_conds])
                          new_conds1 of
                     Inl e \<Rightarrow> Inl e
                   | Inr (curr_conds2, new_conds2) \<Rightarrow> Inr (True, new_conds2, index_col_names)))"

text \<open>
  The scoring rule in the words of the specification: walk the key columns in order;
  a column under an equality condition counts and the walk continues, a column under
  any other condition counts and ends the walk, any other column ends the walk.
\<close>

definition under_eq :: "'v Condition list \<Rightarrow> string \<Rightarrow> bool" where
  "under_eq conds c = (\<exists>cond \<in> set conds. op cond = OP_EQ \<and> col_name (lhs_col cond) = c)"

definition under_neq :: "'v Condition list \<Rightarrow> string \<Rightarrow> bool" where
  "under_neq conds c = (\<exists>cond \<in> set conds. op cond \<noteq> OP_EQ \<and> col_name (lhs_col cond) = c)"

fun prefix_score :: "(string \<Rightarrow> bool) \<Rightarrow> (string \<Rightarrow> bool) \<Rightarrow> string list \<Rightarrow> nat" where
  "prefix_score is_eq is_neq [] = 0"
| "prefix_score is_eq is_neq (c # cs) =
     (if is_eq c then 1 + prefix_score is_eq is_neq cs
      else if is_neq c then 1
      else 0)"

definition index_score :: "TabMeta \<Rightarrow> 'v Condition list \<Rightarrow> nat \<Rightarrow> nat" where
  "index_score tab conds i =
     prefix_score (under_eq conds) (under_neq conds) (map ColMeta.name (IndexMeta.cols (indexes tab ! i)))"

section \<open>Query planner: plans and queries\<close>

datatype PlanTag =
    T_SeqScan | T_IndexScan | T_NestLoop | T_SortMerge | T_SortMergeWithIndex
  | T_Sort | T_Aggregation | T_Projection
  | T_select | T_Insert | T_Delete | T_Update
  | T_CreateTable | T_DropTable | T_CreateIndex | T_DropIndex | T_ShowIndex

record ColDef =
  name :: string
  len :: nat

text \<open>
  A \<open>std::shared_ptr<Plan>\<close>: \<open>NullPlan\<close> is the null pointer, the other constructors
  are the plan classes with the arguments of their constructors. The column type of a
  \<open>ColDef\<close> is left out (it goes through \<open>interp_sv_type\<close>, which is not part of the
  planner source).
\<close>

datatype 'v Plan =
    NullPlan
  | ScanPlan PlanTag string "'v Condition list" "string list"
  | JoinPlan PlanTag "'v Plan" "'v Plan" "'v Condition list"
  | SortPlan PlanTag "'v Plan" TabCol bool
  | AggregationPlan PlanTag "'v Plan" "TabCol list" "TabCol list" "'v Condition list"
  | ProjectionPlan PlanTag "'v Plan" "TabCol list"
  | DMLPlan PlanTag "'v Plan" string "'v list" "'v Condition list" "(TabCol \<times> 'v) list"
  | DDLPlan PlanTag string "string list" "ColDef list"

datatype OrderByDir = OrderBy_DEFAULT | OrderBy_ASC | OrderBy_DESC

text \<open>
  The root of the syntax tree, with the flds the planner reads. A field of
  \<open>CreateTable\<close> is \<open>Some\<close> column definition or \<open>None\<close> for any other kind of field.
  \<open>SelectStmt\<close> carries \<open>has_sort\<close>, \<open>order->cols->col_name\<close> and
  \<open>order->orderby_dir\<close>.
\<close>

datatype TreeNode =
    CreateTable string "ColDef option list"
  | DropTable string
  | CreateIndex string "string list"
  | DropIndex string "string list"
  | ShowIndex string
  | InsertStmt string
  | DeleteStmt string
  | UpdateStmt string
  | SelectStmt bool string OrderByDir
  | OtherNode

record 'v Query =
  parse :: TreeNode
  tables :: "string list"
  conds :: "'v Condition list"
  cols :: "TabCol list"
  vals :: "'v list"
  set_clauses :: "(TabCol \<times> 'v) list"
  has_aggr :: bool
  group_cols :: "TabCol list"
  having_conds :: "'v Condition list"

section \<open>Query planner: predicate extraction and pushdown\<close>

text \<open>
  \<open>pop_conds\<close> returns \<open>solved_conds\<close> and what is left of \<open>conds\<close>.
\<close>

fun pop_conds :: "'v Condition list \<Rightarrow> string \<Rightarrow> 'v Condition list \<times> 'v Condition list" where
  "pop_conds [] tab_names = ([], [])"
| "pop_conds (c # cs) tab_names =
     (let (solved_conds, rest) = pop_conds cs tab_names
      in if (tab_names = TabCol.tab_name (lhs_col c) \<and> is_rhs_val c)
            \<or> TabCol.tab_name (lhs_col c) = TabCol.tab_name (rhs_col c)
         then (c # solved_conds, rest)
         else (solved_conds, c # rest))"

fun swap_op :: "CompOp \<Rightarrow> CompOp" where
  "swap_op OP_EQ = OP_EQ"
| "swap_op OP_NE = OP_NE"
| "swap_op OP_LT = OP_GT"
| "swap_op OP_GT = OP_LT"
| "swap_op OP_LE = OP_GE"
| "swap_op OP_GE = OP_LE"

definition swap_sides :: "'v Condition \<Rightarrow> 'v Condition" where
  "swap_sides c = c\<lparr>lhs_col := rhs_col c, rhs_col := lhs_col c\<rparr>"

text \<open>
  \<open>push_conds\<close> returns its result code and the plan after the call (the plan is
  changed only where the condition is attached).
\<close>

fun push_conds :: "'v Condition \<Rightarrow> 'v Plan \<Rightarrow> nat \<times> 'v Plan" where
  "push_conds cond (ScanPlan tag tab cs names) =
     (if tab = TabCol.tab_name (lhs_col cond) then (1, ScanPlan tag tab cs names)
      else if tab = TabCol.tab_name (rhs_col cond) then (2, ScanPlan tag tab cs names)
      else (0, ScanPlan tag tab cs names))"
| "push_conds cond (JoinPlan tag left right cs) =
     (case push_conds cond left of (left_res, left') \<Rightarrow>
        if left_res = 3 then (3, JoinPlan tag left' right cs)
        else (case push_conds cond right of (right_res, right') \<Rightarrow>
          if right_res = 3 then (3, JoinPlan tag left' right' cs)
          else if left_res = 0 \<or> right_res = 0
               then (left_res + right_res, JoinPlan tag left' right' cs)
          else (3, JoinPlan tag left' right'
                     (cs @ [if left_res = 2
                            then (swap_sides cond)\<lparr>op := swap_op (op cond)\<rparr>
                            else cond]))))"
| "push_conds cond plan = (0, plan)"

text \<open>
  \<open>pop_scan\<close> returns the position of the scan it found in \<open>plans\<close> (it stands for the
  pointer \<open>plans[i]\<close>; \<open>None\<close> is \<open>nullptr\<close>) together with the new \<open>scantbl\<close> and
  \<open>joined_tables\<close>. A plan that is not a \<open>ScanPlan\<close> makes the cast return null, which
  the source dereferences.
\<close>

fun pop_scan_from :: "nat \<Rightarrow> string \<Rightarrow> 'v Plan list \<Rightarrow> planner_error + nat option" where
  "pop_scan_from i table [] = Inr None"
| "pop_scan_from i table (ScanPlan tag tab cs names # plans) =
     (if tab = table then Inr (Some i) else pop_scan_from (Suc i) table plans)"
| "pop_scan_from i table (p # plans) = Inl NullDeref"

definition pop_scan ::
  "int list \<Rightarrow> string \<Rightarrow> string list \<Rightarrow> 'v Plan list \<Rightarrow> planner_error + (nat option \<times> int list \<times> string list)" where
  "pop_scan scantbl table joined_tables plans =
     (case pop_scan_from 0 table plans of
        Inl e \<Rightarrow> Inl e
      | Inr None \<Rightarrow> Inr (None, scantbl, joined_tables)
      | Inr (Some i) \<Rightarrow> Inr (Some i, scantbl[i := 1], joined_tables @ [table]))"

definition plan_at :: "'v Plan list \<Rightarrow> nat option \<Rightarrow> 'v Plan" where
  "plan_at plans p = (case p of None \<Rightarrow> NullPlan | Some i \<Rightarrow> plans ! i)"

section \<open>Query planner: join-tree construction (\<open>Planner::make_one_rel\<close>)\<close>

text \<open>
  The first loop: one scan per table of the query. The result is
  \<open>table_scan_executors\<close> and what is left of \<open>query->conds\<close>. \<open>moved_from\<close> is the
  parameter of \<open>get_index_cols\<close>; every function that reaches \<open>get_index_cols\<close> has it.
\<close>

fun build_scans ::
  "('v Condition \<Rightarrow> 'v Condition) \<Rightarrow> (string \<Rightarrow> TabMeta) \<Rightarrow> string list
     \<Rightarrow> 'v Condition list
     \<Rightarrow> planner_error + ('v Plan list \<times> 'v Condition list)" where
  "build_scans moved_from get_table [] cnds = Inr ([], cnds)"
| "build_scans moved_from get_table (t # ts) cnds =
     (case pop_conds cnds t of (curr_conds, cnds') \<Rightarrow>
        (case get_index_cols moved_from get_table t curr_conds of
           Inl e \<Rightarrow> Inl e
         | Inr (index_exist, curr_conds', index_col_names) \<Rightarrow>
             (case build_scans moved_from get_table ts cnds' of
                Inl e \<Rightarrow> Inl e
              | Inr (scans, rest) \<Rightarrow>
                  Inr ((if index_exist
                        then ScanPlan T_IndexScan t curr_conds' index_col_names
                        else ScanPlan T_SeqScan t curr_conds' []) # scans, rest))))"

text \<open>
  The first join, built from the first remaining condition \<open>it\<close>. The two flags are the
  globals \<open>enable_nestedloop_join\<close> and \<open>enable_sortmerge_join\<close>. Pointer equality
  \<open>left == table_scan_executors[1]\<close> is equality of positions.
\<close>

definition first_join ::
  "('v Condition \<Rightarrow> 'v Condition) \<Rightarrow> bool \<Rightarrow> bool \<Rightarrow> (string \<Rightarrow> TabMeta)
     \<Rightarrow> 'v Plan list \<Rightarrow> 'v Condition
     \<Rightarrow> int list \<Rightarrow> string list \<Rightarrow> planner_error + (int list \<times> string list \<times> 'v Plan)" where
  "first_join moved_from enable_nestedloop_join enable_sortmerge_join get_table
       table_scan_executors it scantbl joined_tables =
     (case pop_scan scantbl (TabCol.tab_name (lhs_col it)) joined_tables table_scan_executors of
        Inl e \<Rightarrow> Inl e
      | Inr (left, scantbl1, joined1) \<Rightarrow>
     (case pop_scan scantbl1 (TabCol.tab_name (rhs_col it)) joined1 table_scan_executors of
        Inl e \<Rightarrow> Inl e
      | Inr (right, scantbl2, joined2) \<Rightarrow>
     if length table_scan_executors < 2 then Inl OutOfRange
     else
       let swap = (left = Some 1 \<and> right = Some 0);
           left' = plan_at table_scan_executors (if swap then right else left);
           right' = plan_at table_scan_executors (if swap then left else right);
           it' = (if swap then swap_sides it else it);
           join_conds = [it']
       in if enable_nestedloop_join \<and> enable_sortmerge_join
          then Inr (scantbl2, joined2, JoinPlan T_NestLoop left' right' join_conds)
          else if enable_nestedloop_join
          then Inr (scantbl2, joined2, JoinPlan T_NestLoop left' right' join_conds)
          else if enable_sortmerge_join
          then (case get_index_cols moved_from get_table (TabCol.tab_name (lhs_col it'))
                       join_conds of
                  Inl e \<Rightarrow> Inl e
                | Inr (left_index_exist, join_conds1, left_index_col_name) \<Rightarrow>
               (case get_index_cols moved_from get_table (TabCol.tab_name (rhs_col it'))
                       join_conds1 of
                  Inl e \<Rightarrow> Inl e
                | Inr (right_index_exist, join_conds2, right_index_col_name) \<Rightarrow>
                  if left_index_exist \<and> right_index_exist
                  then Inr (scantbl2, joined2,
                         JoinPlan T_SortMergeWithIndex
                           (ScanPlan T_IndexScan (TabCol.tab_name (lhs_col it')) [] left_index_col_name)
                           (ScanPlan T_IndexScan (TabCol.tab_name (rhs_col it')) [] right_index_col_name)
                           join_conds2)
                  else Inr (scantbl2, joined2, JoinPlan T_SortMerge left' right' join_conds2)))
          else Inl (RMDBError ''No join executor selected!'')))"

text \<open>
  One round of the second loop (joins 2 to n), for the condition \<open>it\<close>.
\<close>

definition next_join ::
  "'v Plan list \<Rightarrow> 'v Condition \<Rightarrow> int list \<times> string list \<times> 'v Plan
     \<Rightarrow> planner_error + (int list \<times> string list \<times> 'v Plan)" where
  "next_join table_scan_executors it st =
     (case st of (scantbl, joined_tables, table_join_executors) \<Rightarrow>
     (case (if TabCol.tab_name (lhs_col it) \<notin> set joined_tables
            then pop_scan scantbl (TabCol.tab_name (lhs_col it)) joined_tables table_scan_executors
            else Inr (None, scantbl, joined_tables)) of
        Inl e \<Rightarrow> Inl e
      | Inr (left_need, scantbl1, joined1) \<Rightarrow>
     (case (if TabCol.tab_name (rhs_col it) \<notin> set joined1
            then (case pop_scan scantbl1 (TabCol.tab_name (rhs_col it)) joined1 table_scan_executors of
                    Inl e \<Rightarrow> Inl e
                  | Inr (p, s, j) \<Rightarrow> Inr (p, s, j, True))
            else Inr (None, scantbl1, joined1, False)) of
        Inl e \<Rightarrow> Inl e
      | Inr (right_need, scantbl2, joined2, isneedreverse) \<Rightarrow>
          if left_need \<noteq> None \<and> right_need \<noteq> None
          then Inr (scantbl2, joined2,
                 JoinPlan T_NestLoop
                   (JoinPlan T_NestLoop (plan_at table_scan_executors left_need)
                                        (plan_at table_scan_executors right_need) [it])
                   table_join_executors [])
          else if left_need \<noteq> None \<or> right_need \<noteq> None
          then (if isneedreverse
                then Inr (scantbl2, joined2,
                       JoinPlan T_NestLoop (plan_at table_scan_executors right_need)
                         table_join_executors [(swap_sides it)\<lparr>op := swap_op (op it)\<rparr>])
                else Inr (scantbl2, joined2,
                       JoinPlan T_NestLoop (plan_at table_scan_executors left_need)
                         table_join_executors [it]))
          else Inr (scantbl2, joined2, snd (push_conds it table_join_executors)))))"

fun join_rest ::
  "'v Plan list \<Rightarrow> 'v Condition list \<Rightarrow> int list \<times> string list \<times> 'v Plan
     \<Rightarrow> planner_error + (int list \<times> string list \<times> 'v Plan)" where
  "join_rest table_scan_executors [] st = Inr st"
| "join_rest table_scan_executors (it # cnds) st =
     (case next_join table_scan_executors it st of
        Inl e \<Rightarrow> Inl e
      | Inr st' \<Rightarrow> join_rest table_scan_executors cnds st')"

text \<open>
  The last loop: every table whose \<open>scantbl\<close> entry is still \<open>-1\<close> is joined on top.
\<close>

definition join_remaining :: "'v Plan list \<Rightarrow> int list \<Rightarrow> 'v Plan \<Rightarrow> 'v Plan" where
  "join_remaining table_scan_executors scantbl table_join_executors =
     fold (\<lambda>i plan. if scantbl ! i = - 1
                     then JoinPlan T_NestLoop (table_scan_executors ! i) plan []
                     else plan)
          [0..<length table_scan_executors] table_join_executors"

definition make_one_rel ::
  "('v Condition \<Rightarrow> 'v Condition) \<Rightarrow> bool \<Rightarrow> bool \<Rightarrow> (string \<Rightarrow> TabMeta) \<Rightarrow> 'v Query
     \<Rightarrow> planner_error + 'v Plan" where
  "make_one_rel moved_from enable_nestedloop_join enable_sortmerge_join get_table query =
     (case build_scans moved_from get_table (tables query) (Query.conds query) of
        Inl e \<Rightarrow> Inl e
      | Inr (table_scan_executors, cnds) \<Rightarrow>
          if length (tables query) = 1 then Inr (table_scan_executors ! 0)
          else
            let scantbl = replicate (length (tables query)) (- 1)
            in (case cnds of
                  it # cnds' \<Rightarrow>
                    (case first_join moved_from enable_nestedloop_join enable_sortmerge_join
                            get_table table_scan_executors it scantbl
                            (replicate (length (tables query)) []) of
                       Inl e \<Rightarrow> Inl e
                     | Inr st \<Rightarrow>
                         (case join_rest table_scan_executors cnds' st of
                            Inl e \<Rightarrow> Inl e
                          | Inr (scantbl', joined_tables', table_join_executors) \<Rightarrow>
                              Inr (join_remaining table_scan_executors scantbl'
                                     table_join_executors)))
                | [] \<Rightarrow>
                    if table_scan_executors = [] then Inl OutOfRange
                    else Inr (join_remaining table_scan_executors (scantbl[0 := 1])
                                (table_scan_executors ! 0))))"

section \<open>Query planner: sort, aggregation, projection and the entry point\<close>

text \<open>
  \<open>generate_sort_plan\<close>. A query whose root is not a \<open>SelectStmt\<close> makes the cast return
  null, which the source dereferences.
\<close>

definition generate_sort_plan ::
  "(string \<Rightarrow> TabMeta) \<Rightarrow> 'v Query \<Rightarrow> 'v Plan \<Rightarrow> planner_error + 'v Plan" where
  "generate_sort_plan get_table query plan =
     (case parse query of
        SelectStmt has_sort order_col_name orderby_dir \<Rightarrow>
          if \<not> has_sort then Inr plan
          else
            let all_cols = concat (map (\<lambda>sel_tab_name. TabMeta.cols (get_table sel_tab_name))
                                       (tables query));
                sel_col = fold (\<lambda>col sel_col.
                                  if ColMeta.name col = order_col_name
                                  then \<lparr>TabCol.tab_name = ColMeta.tab_name col,
                                        col_name = ColMeta.name col\<rparr>
                                  else sel_col)
                               all_cols \<lparr>TabCol.tab_name = [], col_name = []\<rparr>
            in Inr (SortPlan T_Sort plan sel_col (orderby_dir = OrderBy_DESC))
      | _ \<Rightarrow> Inl NullDeref)"

definition generate_aggregation_group_plan :: "'v Query \<Rightarrow> 'v Plan \<Rightarrow> 'v Plan" where
  "generate_aggregation_group_plan query plan =
     (if \<not> has_aggr query \<and> group_cols query = [] then plan
      else AggregationPlan T_Aggregation plan (Query.cols query) (group_cols query)
             (having_conds query))"

definition physical_optimization ::
  "('v Condition \<Rightarrow> 'v Condition) \<Rightarrow> bool \<Rightarrow> bool \<Rightarrow> (string \<Rightarrow> TabMeta) \<Rightarrow> 'v Query
     \<Rightarrow> planner_error + 'v Plan" where
  "physical_optimization moved_from enable_nestedloop_join enable_sortmerge_join get_table query =
     (case make_one_rel moved_from enable_nestedloop_join enable_sortmerge_join get_table query of
        Inl e \<Rightarrow> Inl e
      | Inr plan \<Rightarrow>
          generate_sort_plan get_table query (generate_aggregation_group_plan query plan))"

definition generate_select_plan ::
  "('v Condition \<Rightarrow> 'v Condition) \<Rightarrow> bool \<Rightarrow> bool \<Rightarrow> (string \<Rightarrow> TabMeta) \<Rightarrow> 'v Query
     \<Rightarrow> planner_error + 'v Plan" where
  "generate_select_plan moved_from enable_nestedloop_join enable_sortmerge_join get_table query =
     (case physical_optimization moved_from enable_nestedloop_join enable_sortmerge_join
             get_table query of
        Inl e \<Rightarrow> Inl e
      | Inr plannerRoot \<Rightarrow> Inr (ProjectionPlan T_Projection plannerRoot (Query.cols query)))"

text \<open>
  The scan of a \<open>DELETE\<close> or \<open>UPDATE\<close>: \<open>get_index_cols\<close> works on \<open>query->conds\<close>
  itself. The result is the scan and the new \<open>query->conds\<close>.
\<close>

definition single_table_scan ::
  "('v Condition \<Rightarrow> 'v Condition) \<Rightarrow> (string \<Rightarrow> TabMeta) \<Rightarrow> string
     \<Rightarrow> 'v Condition list
     \<Rightarrow> planner_error + ('v Plan \<times> 'v Condition list)" where
  "single_table_scan moved_from get_table tab cnds =
     (case get_index_cols moved_from get_table tab cnds of
        Inl e \<Rightarrow> Inl e
      | Inr (index_exist, cnds', index_col_names) \<Rightarrow>
          if index_exist then Inr (ScanPlan T_IndexScan tab cnds' index_col_names, cnds')
          else Inr (ScanPlan T_SeqScan tab cnds' [], cnds'))"

fun col_defs_of :: "ColDef option list \<Rightarrow> planner_error + ColDef list" where
  "col_defs_of [] = Inr []"
| "col_defs_of (None # flds) = Inl (InternalError ''Unexpected field type'')"
| "col_defs_of (Some d # flds) =
     (case col_defs_of flds of Inl e \<Rightarrow> Inl e | Inr ds \<Rightarrow> Inr (d # ds))"

definition do_planner ::
  "('v Condition \<Rightarrow> 'v Condition) \<Rightarrow> bool \<Rightarrow> bool \<Rightarrow> (string \<Rightarrow> TabMeta) \<Rightarrow> 'v Query
     \<Rightarrow> planner_error + 'v Plan" where
  "do_planner moved_from enable_nestedloop_join enable_sortmerge_join get_table query =
     (case parse query of
        CreateTable tab flds \<Rightarrow>
          (case col_defs_of flds of
             Inl e \<Rightarrow> Inl e
           | Inr col_defs \<Rightarrow> Inr (DDLPlan T_CreateTable tab [] col_defs))
      | DropTable tab \<Rightarrow> Inr (DDLPlan T_DropTable tab [] [])
      | CreateIndex tab col_names \<Rightarrow> Inr (DDLPlan T_CreateIndex tab col_names [])
      | DropIndex tab col_names \<Rightarrow> Inr (DDLPlan T_DropIndex tab col_names [])
      | ShowIndex tab \<Rightarrow> Inr (DDLPlan T_ShowIndex tab [] [])
      | InsertStmt tab \<Rightarrow> Inr (DMLPlan T_Insert NullPlan tab (vals query) [] [])
      | DeleteStmt tab \<Rightarrow>
          (case single_table_scan moved_from get_table tab (Query.conds query) of
             Inl e \<Rightarrow> Inl e
           | Inr (table_scan_executors, cnds') \<Rightarrow>
               Inr (DMLPlan T_Delete table_scan_executors tab [] cnds' []))
      | UpdateStmt tab \<Rightarrow>
          (case single_table_scan moved_from get_table tab (Query.conds query) of
             Inl e \<Rightarrow> Inl e
           | Inr (table_scan_executors, cnds') \<Rightarrow>
               Inr (DMLPlan T_Update table_scan_executors tab [] cnds' (set_clauses query)))
      | SelectStmt has_sort order_col_name orderby_dir \<Rightarrow>
          (case generate_select_plan moved_from enable_nestedloop_join enable_sortmerge_join
                  get_table query of
             Inl e \<Rightarrow> Inl e
           | Inr projection \<Rightarrow> Inr (DMLPlan T_select projection [] [] [] []))
      | OtherNode \<Rightarrow> Inl (InternalError ''Unexpected AST root''))"

section \<open>Query planner: vocabulary of the claims\<close>

text \<open>
  The tables scanned below a plan node, and the table of a scan node.
\<close>

fun tables_of :: "'v Plan \<Rightarrow> string set" where
  "tables_of NullPlan = {}"
| "tables_of (ScanPlan tag tab cs names) = {tab}"
| "tables_of (JoinPlan tag left right cs) = tables_of left \<union> tables_of right"
| "tables_of (SortPlan tag p c d) = tables_of p"
| "tables_of (AggregationPlan tag p cs gs hs) = tables_of p"
| "tables_of (ProjectionPlan tag p cs) = tables_of p"
| "tables_of (DMLPlan tag p tab vs cs scs) = tables_of p"
| "tables_of (DDLPlan tag tab ns ds) = {}"

fun scan_tab :: "'v Plan \<Rightarrow> string option" where
  "scan_tab (ScanPlan tag tab cs names) = Some tab"
| "scan_tab p = None"

text \<open>
  Every condition of every \<open>JoinPlan\<close> in the tree has its \<open>lhs_col\<close> on a table of
  the left subtree of that \<open>JoinPlan\<close>.
\<close>

fun joins_normalized :: "'v Plan \<Rightarrow> bool" where
  "joins_normalized NullPlan = True"
| "joins_normalized (ScanPlan tag tab cs names) = True"
| "joins_normalized (JoinPlan tag left right cs) =
     ((\<forall>c\<in>set cs. TabCol.tab_name (lhs_col c) \<in> tables_of left)
      \<and> joins_normalized left \<and> joins_normalized right)"
| "joins_normalized (SortPlan tag p c d) = joins_normalized p"
| "joins_normalized (AggregationPlan tag p cs gs hs) = joins_normalized p"
| "joins_normalized (ProjectionPlan tag p cs) = joins_normalized p"
| "joins_normalized (DMLPlan tag p tab vs cs scs) = joins_normalized p"
| "joins_normalized (DDLPlan tag tab ns ds) = True"

text \<open>
  A condition is table-local to \<open>t\<close> when every column it references is a column of
  \<open>t\<close>; every condition of every \<open>ScanPlan\<close> in the tree is local to the scan's table.
\<close>

definition table_local :: "string \<Rightarrow> 'v Condition \<Rightarrow> bool" where
  "table_local t c =
     (TabCol.tab_name (lhs_col c) = t \<and> (is_rhs_val c \<or> TabCol.tab_name (rhs_col c) = t))"

fun scans_local :: "'v Plan \<Rightarrow> bool" where
  "scans_local NullPlan = True"
| "scans_local (ScanPlan tag tab cs names) = (\<forall>c\<in>set cs. table_local tab c)"
| "scans_local (JoinPlan tag left right cs) = (scans_local left \<and> scans_local right)"
| "scans_local (SortPlan tag p c d) = scans_local p"
| "scans_local (AggregationPlan tag p cs gs hs) = scans_local p"
| "scans_local (ProjectionPlan tag p cs) = scans_local p"
| "scans_local (DMLPlan tag p tab vs cs scs) = scans_local p"
| "scans_local (DDLPlan tag tab ns ds) = True"

section \<open>External merge sorter: state\<close>

text \<open>
  A record of \<open>RECORD_SIZE\<close> bytes is one value of the type \<open>'a\<close>; the comparator
  \<open>cmp_\<close> (with its argument \<open>arg_\<close>) is a function \<open>'a \<Rightarrow> 'a \<Rightarrow> int\<close> passed to the
  operations that use it. The C library's \<open>qsort_r\<close>, applied to a whole array, is the
  parameter \<open>qs\<close>.

  \<open>files\<close> holds the contents of the temporary files, in the order of \<open>filenames_\<close>.
  While \<open>data\<close> is set, the file mapped at \<open>data\<close> is the last one of \<open>files\<close>, and its
  list holds the records written into the mapping so far (the slots behind them hold the
  zero bytes of \<open>ftruncate\<close>; \<open>qsort_r\<close> is only ever called on written slots and
  \<open>endWrite\<close> cuts the others off). \<open>opened_files\<close> holds, for every stream, the records
  not read yet. Sizes are taken to stay in the range of the C++ integer types, and the
  system calls on files that exist (\<open>mkstemp\<close>, \<open>open\<close>, \<open>munmap\<close>, reading) to succeed.
\<close>

datatype ems_error = UnixError | OutOfBounds | UninitializedRecord | UndefinedConversion

record 'a sorter =
  NUM_RECORD_PER_FILE :: int
  files :: "'a list list"
  opened_files :: "'a list list"
  record_list :: "'a list"
  heap :: "int list"
  index :: int
  data :: bool
  isFull :: bool

definition new_sorter :: "int \<Rightarrow> 'a sorter" where
  "new_sorter num_record_per_file =
     \<lparr>NUM_RECORD_PER_FILE = num_record_per_file, files = [], opened_files = [],
      record_list = [], heap = [], index = 0, data = False, isFull = True\<rparr>"

section \<open>External merge sorter: write phase\<close>

definition qsort_r :: "('a list \<Rightarrow> 'a list) \<Rightarrow> int \<Rightarrow> 'a list \<Rightarrow> 'a list" where
  "qsort_r qs n region = qs (take (nat n) region) @ drop (nat n) region"

definition on_mapped :: "('a list \<Rightarrow> 'a list) \<Rightarrow> 'a sorter \<Rightarrow> 'a sorter" where
  "on_mapped f s = s\<lparr>files := butlast (files s) @ [f (last (files s))]\<rparr>"

text \<open>
  \<open>write\<close> of the source (named \<open>write_record\<close>, since \<open>write\<close> is a keyword of
  Isabelle). A mapping of \<open>NUM_RECORD_PER_FILE * RECORD_SIZE \<le> 0\<close> bytes is refused by
  \<open>mmap\<close>, which the source reports as \<open>UnixError\<close>. Writing through a null \<open>data\<close> is
  \<open>OutOfBounds\<close>.
\<close>

definition write_record :: "('a list \<Rightarrow> 'a list) \<Rightarrow> 'a sorter \<Rightarrow> 'a \<Rightarrow> ems_error + 'a sorter" where
  "write_record qs s record =
     (case (if isFull s
            then (let s1 = (if data s
                            then on_mapped (qsort_r qs (NUM_RECORD_PER_FILE s)) s
                            else s)
                  in if NUM_RECORD_PER_FILE s \<le> 0 then Inl UnixError
                     else Inr (s1\<lparr>files := files s1 @ [[]],
                                  data := True, isFull := False, index := 0\<rparr>))
            else Inr s) of
        Inl e \<Rightarrow> Inl e
      | Inr s2 \<Rightarrow>
          if \<not> data s2 \<or> files s2 = [] then Inl OutOfBounds
          else Inr ((on_mapped (\<lambda>region. take (nat (index s2)) region @ [record]) s2)
                      \<lparr>index := index s2 + 1,
                       isFull := (isFull s2 \<or> index s2 + 1 = NUM_RECORD_PER_FILE s2)\<rparr>))"

fun write_all :: "('a list \<Rightarrow> 'a list) \<Rightarrow> 'a sorter \<Rightarrow> 'a list \<Rightarrow> ems_error + 'a sorter" where
  "write_all qs s [] = Inr s"
| "write_all qs s (r # rs) =
     (case write_record qs s r of Inl e \<Rightarrow> Inl e | Inr s' \<Rightarrow> write_all qs s' rs)"

definition endWrite :: "('a list \<Rightarrow> 'a list) \<Rightarrow> 'a sorter \<Rightarrow> 'a sorter" where
  "endWrite qs s =
     (if data s \<and> files s \<noteq> []
      then on_mapped (\<lambda>region. take (nat (index s)) (qsort_r qs (index s) region)) s
      else s)"

section \<open>External merge sorter: building the loser tree\<close>

text \<open>
  The first loop of \<open>beginRead\<close>: the first record and the unread rest of every file.
  For an empty file the source leaves the record buffer uninitialized; the model stops
  there.
\<close>

fun open_files :: "'a list list \<Rightarrow> ems_error + ('a list \<times> 'a list list)" where
  "open_files [] = Inr ([], [])"
| "open_files ([] # fs) = Inl UninitializedRecord"
| "open_files ((r # rest) # fs) =
     (case open_files fs of
        Inl e \<Rightarrow> Inl e
      | Inr (firsts, rests) \<Rightarrow> Inr (r # firsts, rest # rests))"

text \<open>
  \<open>std::ceil(std::log2(k))\<close> converted to an integer. For \<open>k = 0\<close> the logarithm is
  minus infinity, whose conversion to an integer type is undefined. For \<open>k \<ge> 1\<close> the
  result is the least \<open>h\<close> with \<open>k \<le> 2 ^ h\<close> (the floating-point logarithm is taken to
  be exact enough for that).
\<close>

fun ceil_log2 :: "nat \<Rightarrow> nat" where
  "ceil_log2 k = (if k \<le> 1 then 0 else Suc (ceil_log2 ((k + 1) div 2)))"

declare ceil_log2.simps [simp del]

definition height_of :: "nat \<Rightarrow> ems_error + nat" where
  "height_of k = (if k = 0 then Inl UndefinedConversion else Inr (ceil_log2 k))"

definition resize :: "nat \<Rightarrow> int list \<Rightarrow> int list" where
  "resize n v = take n v @ replicate (n - length v) 0"

text \<open>
  One round of the bottom-up loop at the inner node \<open>i\<close>, on \<open>(heap, winners)\<close>.
\<close>

definition build_step ::
  "('a \<Rightarrow> 'a \<Rightarrow> int) \<Rightarrow> 'a list \<Rightarrow> nat \<Rightarrow> int list \<times> int list \<Rightarrow> int list \<times> int list" where
  "build_step cmp recs i hw =
     (case hw of (hp, winners) \<Rightarrow>
        if winners ! (2 * i) \<noteq> - 1 \<and>
           (winners ! (2 * i + 1) = - 1 \<or>
            cmp (recs ! nat (winners ! (2 * i))) (recs ! nat (winners ! (2 * i + 1))) \<le> 0)
        then (hp[i := winners ! (2 * i + 1)], winners[i := winners ! (2 * i)])
        else (hp[i := winners ! (2 * i)], winners[i := winners ! (2 * i + 1)]))"

fun build_loop ::
  "('a \<Rightarrow> 'a \<Rightarrow> int) \<Rightarrow> 'a list \<Rightarrow> nat \<Rightarrow> int list \<times> int list \<Rightarrow> int list \<times> int list" where
  "build_loop cmp recs 0 hw = hw"
| "build_loop cmp recs (Suc i) hw = build_loop cmp recs i (build_step cmp recs (Suc i) hw)"

definition set_leaves :: "nat \<Rightarrow> nat \<Rightarrow> int list \<Rightarrow> int list" where
  "set_leaves height k v =
     fold (\<lambda>i v. v[2 ^ height + i := - 1]) [k..<2 ^ height]
       (fold (\<lambda>i v. v[2 ^ height + i := int i]) [0..<k] v)"

definition beginRead :: "('a \<Rightarrow> 'a \<Rightarrow> int) \<Rightarrow> 'a sorter \<Rightarrow> ems_error + 'a sorter" where
  "beginRead cmp s =
     (case open_files (files s) of
        Inl e \<Rightarrow> Inl e
      | Inr (firsts, rests) \<Rightarrow>
          (case height_of (length (files s)) of
             Inl e \<Rightarrow> Inl e
           | Inr height \<Rightarrow>
               (case build_loop cmp (record_list s @ firsts) (2 ^ height - 1)
                       (set_leaves height (length (files s)) (resize (2 ^ (height + 1)) (heap s)),
                        set_leaves height (length (files s)) (replicate (2 ^ (height + 1)) 0)) of
                  (hp, winners) \<Rightarrow>
                    Inr (s\<lparr>opened_files := opened_files s @ rests,
                           record_list := record_list s @ firsts,
                           heap := hp[0 := winners ! 1]\<rparr>))))"

section \<open>External merge sorter: read phase\<close>

definition is_run :: "'a list \<Rightarrow> int \<Rightarrow> bool" where
  "is_run recs i = (0 \<le> i \<and> nat i < length recs)"

text \<open>
  The loop of \<open>adjust\<close>, on \<open>cur\<close>, \<open>winner\<close> and the heap. It ends when \<open>cur\<close> is 1; from
  \<open>cur = 0\<close> it would never end. An index outside \<open>heap\<close> or \<open>record_list\<close> is
  \<open>OutOfBounds\<close>.
\<close>

partial_function (option) adjust_loop ::
  "('a \<Rightarrow> 'a \<Rightarrow> int) \<Rightarrow> 'a list \<Rightarrow> nat \<Rightarrow> int \<Rightarrow> int list \<Rightarrow> (ems_error + int list \<times> int) option" where
  "adjust_loop cmp recs cur winner hp =
     (if cur = 1 then Some (Inr (hp, winner))
      else if \<not> cur div 2 < length hp then Some (Inl OutOfBounds)
      else if winner \<noteq> - 1 \<and> hp ! (cur div 2) \<noteq> - 1 \<and>
              \<not> (is_run recs winner \<and> is_run recs (hp ! (cur div 2)))
           then Some (Inl OutOfBounds)
      else if winner \<noteq> - 1 \<and>
              (hp ! (cur div 2) = - 1 \<or>
               cmp (recs ! nat winner) (recs ! nat (hp ! (cur div 2))) \<le> 0)
           then adjust_loop cmp recs (cur div 2) winner hp
           else adjust_loop cmp recs (cur div 2) (hp ! (cur div 2)) (hp[cur div 2 := winner]))"

declare adjust_loop.simps [code]

text \<open>
  \<open>adjust\<close>: refill the record of the run at \<open>heap[0]\<close> (or mark its leaf as a dummy at
  the end of its file), replay the matches on the way to the root, store the winner.
\<close>

definition adjust :: "('a \<Rightarrow> 'a \<Rightarrow> int) \<Rightarrow> 'a sorter \<Rightarrow> (ems_error + 'a sorter) option" where
  "adjust cmp s =
     (if heap s = [] then Some (Inl OutOfBounds)
      else if \<not> (is_run (opened_files s) (heap s ! 0) \<and> is_run (record_list s) (heap s ! 0))
      then Some (Inl OutOfBounds)
      else
        (case height_of (length (files s)) of
           Inl e \<Rightarrow> Some (Inl e)
         | Inr height \<Rightarrow>
             (case opened_files s ! nat (heap s ! 0) of
                [] \<Rightarrow>
                  if \<not> nat (heap s ! 0) + 2 ^ height < length (heap s) then Some (Inl OutOfBounds)
                  else
                    (case adjust_loop cmp (record_list s) (nat (heap s ! 0) + 2 ^ height) (- 1)
                            ((heap s)[nat (heap s ! 0) + 2 ^ height := - 1]) of
                       None \<Rightarrow> None
                     | Some (Inl e) \<Rightarrow> Some (Inl e)
                     | Some (Inr (hp, winner)) \<Rightarrow> Some (Inr (s\<lparr>heap := hp[0 := winner]\<rparr>)))
              | r # rest \<Rightarrow>
                  (case adjust_loop cmp ((record_list s)[nat (heap s ! 0) := r])
                          (nat (heap s ! 0) + 2 ^ height) (heap s ! 0) (heap s) of
                     None \<Rightarrow> None
                   | Some (Inl e) \<Rightarrow> Some (Inl e)
                   | Some (Inr (hp, winner)) \<Rightarrow>
                       Some (Inr (s\<lparr>opened_files := (opened_files s)[nat (heap s ! 0) := rest],
                                    record_list := (record_list s)[nat (heap s ! 0) := r],
                                    heap := hp[0 := winner]\<rparr>))))))"

text \<open>
  \<open>read\<close> returns the record copied out and the new state.
\<close>

definition read :: "('a \<Rightarrow> 'a \<Rightarrow> int) \<Rightarrow> 'a sorter \<Rightarrow> (ems_error + 'a \<times> 'a sorter) option" where
  "read cmp s =
     (if heap s = [] \<or> \<not> is_run (record_list s) (heap s ! 0) then Some (Inl OutOfBounds)
      else (case adjust cmp s of
              None \<Rightarrow> None
            | Some (Inl e) \<Rightarrow> Some (Inl e)
            | Some (Inr s') \<Rightarrow> Some (Inr (record_list s ! nat (heap s ! 0), s'))))"

fun read_n ::
  "('a \<Rightarrow> 'a \<Rightarrow> int) \<Rightarrow> nat \<Rightarrow> 'a sorter \<Rightarrow> (ems_error + 'a list \<times> 'a sorter) option" where
  "read_n cmp 0 s = Some (Inr ([], s))"
| "read_n cmp (Suc n) s =
     (case read cmp s of
        None \<Rightarrow> None
      | Some (Inl e) \<Rightarrow> Some (Inl e)
      | Some (Inr (r, s')) \<Rightarrow>
          (case read_n cmp n s' of
             None \<Rightarrow> None
           | Some (Inl e) \<Rightarrow> Some (Inl e)
           | Some (Inr (rs, s'')) \<Rightarrow> Some (Inr (r # rs, s''))))"

text \<open>
  A whole session: \<open>write\<close> for every record of the input, \<open>endWrite\<close>, \<open>beginRead\<close>,
  and as many calls of \<open>read\<close> as records were written. The result is the sequence of
  records read; \<open>None\<close> stands for a session that does not return.
\<close>

definition sort_session ::
  "('a list \<Rightarrow> 'a list) \<Rightarrow> ('a \<Rightarrow> 'a \<Rightarrow> int) \<Rightarrow> int \<Rightarrow> 'a list \<Rightarrow> (ems_error + 'a list) option" where
  "sort_session qs cmp num_record_per_file input =
     (case write_all qs (new_sorter num_record_per_file) input of
        Inl e \<Rightarrow> Some (Inl e)
      | Inr s1 \<Rightarrow>
          (case beginRead cmp (endWrite qs s1) of
             Inl e \<Rightarrow> Some (Inl e)
           | Inr s2 \<Rightarrow>
               (case read_n cmp (length input) s2 of
                  None \<Rightarrow> None
                | Some (Inl e) \<Rightarrow> Some (Inl e)
                | Some (Inr (rs, s3)) \<Rightarrow> Some (Inr rs))))"

text \<open>
  The properties of the comparator and of \<open>qsort_r\<close> that the sorter relies on.
\<close>

definition total_order_cmp :: "('a \<Rightarrow> 'a \<Rightarrow> int) \<Rightarrow> bool" where
  "total_order_cmp cmp =
     ((\<forall>a b. cmp a b \<le> 0 \<or> cmp b a \<le> 0) \<and>
      (\<forall>a b c. cmp a b \<le> 0 \<and> cmp b c \<le> 0 \<longrightarrow> cmp a c \<le> 0))"

definition sorts_by :: "('a \<Rightarrow> 'a \<Rightarrow> int) \<Rightarrow> ('a list \<Rightarrow> 'a list) \<Rightarrow> bool" where
  "sorts_by cmp qs =
     (\<forall>xs. mset (qs xs) = mset xs \<and> sorted_wrt (\<lambda>a b. cmp a b \<le> 0) (qs xs))"

section \<open>External merge sorter: invariant of the loser tree\<close>

text \<open>
  The vocabulary of the correctness proof. The tree has height \<open>h\<close> over \<open>k\<close> runs; the
  nodes are the positions \<open>1 \<le> p < 2 ^ (h + 1)\<close> of the heap, the leaves are the positions
  from \<open>2 ^ h\<close> on. \<open>W p\<close> is the winner of the subtree at \<open>p\<close> (a run, or \<open>-1\<close>): the
  heap itself only stores the losers. \<open>beats\<close> is the outcome of a match, \<open>anc p q\<close> says
  that \<open>p\<close> lies on the way from \<open>q\<close> to the root.
\<close>

definition beats :: "('a \<Rightarrow> 'a \<Rightarrow> int) \<Rightarrow> 'a list \<Rightarrow> int \<Rightarrow> int \<Rightarrow> bool" where
  "beats cmp recs a b = (b = - 1 \<or> (a \<noteq> - 1 \<and> cmp (recs ! nat a) (recs ! nat b) \<le> 0))"

definition anc :: "nat \<Rightarrow> nat \<Rightarrow> bool" where
  "anc p q = (\<exists>n. q div 2 ^ n = p)"

definition leaf_ok :: "nat \<Rightarrow> nat \<Rightarrow> int list \<Rightarrow> (nat \<Rightarrow> int) \<Rightarrow> nat \<Rightarrow> bool" where
  "leaf_ok h k hp W p =
     (W p = hp ! p \<and> (hp ! p = - 1 \<or> (hp ! p = int (p - 2 ^ h) \<and> p - 2 ^ h < k)))"

definition inner_ok ::
  "('a \<Rightarrow> 'a \<Rightarrow> int) \<Rightarrow> 'a list \<Rightarrow> int list \<Rightarrow> (nat \<Rightarrow> int) \<Rightarrow> nat \<Rightarrow> bool" where
  "inner_ok cmp recs hp W p =
     (((W p = W (2 * p) \<and> hp ! p = W (2 * p + 1)) \<or> (W p = W (2 * p + 1) \<and> hp ! p = W (2 * p)))
      \<and> beats cmp recs (W p) (hp ! p))"

definition src_ok :: "nat \<Rightarrow> nat \<Rightarrow> int list \<Rightarrow> (nat \<Rightarrow> int) \<Rightarrow> nat \<Rightarrow> bool" where
  "src_ok h k hp W p =
     (W p = - 1 \<or>
      (0 \<le> W p \<and> nat (W p) < k \<and> hp ! (2 ^ h + nat (W p)) = W p \<and> anc p (2 ^ h + nat (W p))))"

definition tree_inv ::
  "('a \<Rightarrow> 'a \<Rightarrow> int) \<Rightarrow> 'a list \<Rightarrow> nat \<Rightarrow> nat \<Rightarrow> int list \<Rightarrow> (nat \<Rightarrow> int) \<Rightarrow> bool" where
  "tree_inv cmp recs h k hp W =
     (length hp = 2 ^ (h + 1) \<and> k \<le> 2 ^ h \<and> length recs = k \<and>
      (\<forall>p. 2 ^ h \<le> p \<and> p < 2 ^ (h + 1) \<longrightarrow> leaf_ok h k hp W p) \<and>
      (\<forall>p. 1 \<le> p \<and> p < 2 ^ h \<longrightarrow> inner_ok cmp recs hp W p) \<and>
      (\<forall>p. 1 \<le> p \<and> p < 2 ^ (h + 1) \<longrightarrow> src_ok h k hp W p) \<and>
      hp ! 0 = W 1)"

text \<open>
  The invariant of the bottom-up loop of \<open>beginRead\<close>: the nodes above \<open>i\<close> have played
  their match. The winners are the array \<open>winners\<close> of the source.
\<close>

definition build_inv ::
  "('a \<Rightarrow> 'a \<Rightarrow> int) \<Rightarrow> 'a list \<Rightarrow> nat \<Rightarrow> nat \<Rightarrow> nat \<Rightarrow> int list \<times> int list \<Rightarrow> bool" where
  "build_inv cmp recs h k i hw =
     (length (fst hw) = 2 ^ (h + 1) \<and> length (snd hw) = 2 ^ (h + 1) \<and>
      (\<forall>p. 2 ^ h \<le> p \<and> p < 2 ^ (h + 1) \<longrightarrow> leaf_ok h k (fst hw) ((!) (snd hw)) p) \<and>
      (\<forall>p. i < p \<and> p < 2 ^ h \<longrightarrow> inner_ok cmp recs (fst hw) ((!) (snd hw)) p) \<and>
      (\<forall>p. i < p \<and> p < 2 ^ (h + 1) \<longrightarrow> src_ok h k (fst hw) ((!) (snd hw)) p))"

text \<open>
  The other child of the parent of \<open>c\<close>.
\<close>

definition sib :: "nat \<Rightarrow> nat" where
  "sib c = (if even c then c + 1 else c - 1)"

text \<open>
  The invariant of the loop of \<open>adjust\<close> after \<open>n\<close> rounds on the way up from the leaf
  \<open>q\<close>: the candidate \<open>w\<close> is the winner below the node reached, the nodes higher up
  on the way still hold the loser of their other subtree, every node off the way is as in
  \<open>tree_inv\<close>.
\<close>

definition path_inv ::
  "('a \<Rightarrow> 'a \<Rightarrow> int) \<Rightarrow> 'a list \<Rightarrow> nat \<Rightarrow> nat \<Rightarrow> nat \<Rightarrow> nat \<Rightarrow> int \<Rightarrow> int list \<Rightarrow> (nat \<Rightarrow> int) \<Rightarrow> bool" where
  "path_inv cmp recs h k q n w g V =
     (length g = 2 ^ (h + 1) \<and> V (q div 2 ^ n) = w \<and>
      (\<forall>p. 2 ^ h \<le> p \<and> p < 2 ^ (h + 1) \<longrightarrow> leaf_ok h k g V p) \<and>
      (\<forall>p. 1 \<le> p \<and> p < 2 ^ h \<and> (\<forall>m. n < m \<and> m \<le> h \<longrightarrow> p \<noteq> q div 2 ^ m) \<longrightarrow>
           inner_ok cmp recs g V p) \<and>
      (\<forall>p. 1 \<le> p \<and> p < 2 ^ (h + 1) \<and> (\<forall>m. n < m \<and> m \<le> h \<longrightarrow> p \<noteq> q div 2 ^ m) \<longrightarrow>
           src_ok h k g V p) \<and>
      (\<forall>m. n < m \<and> m \<le> h \<longrightarrow> g ! (q div 2 ^ m) = V (sib (q div 2 ^ (m - 1)))))"

text \<open>
  What is left to read of run \<open>i\<close>: its current record and the unread rest of its file
  while its leaf is alive, nothing once the leaf is a dummy. \<open>read_inv\<close> is the invariant
  of the read phase.
\<close>

definition run_rest :: "'a sorter \<Rightarrow> nat \<Rightarrow> 'a list" where
  "run_rest s i =
     (if heap s ! (2 ^ ceil_log2 (length (files s)) + i) = int i
      then record_list s ! i # opened_files s ! i
      else [])"

definition remaining :: "'a sorter \<Rightarrow> 'a multiset" where
  "remaining s = (\<Sum>i<length (files s). mset (run_rest s i))"

definition read_inv :: "('a \<Rightarrow> 'a \<Rightarrow> int) \<Rightarrow> 'a sorter \<Rightarrow> bool" where
  "read_inv cmp s =
     (1 \<le> length (files s) \<and>
      length (opened_files s) = length (files s) \<and>
      (\<exists>W. tree_inv cmp (record_list s) (ceil_log2 (length (files s))) (length (files s)) (heap s) W) \<and>
      (\<forall>i<length (files s). sorted_wrt (\<lambda>a b. cmp a b \<le> 0) (run_rest s i)))"

text \<open>
  The state of the write phase after the records \<open>xs\<close> have been written.
\<close>

definition write_inv ::
  "('a \<Rightarrow> 'a \<Rightarrow> int) \<Rightarrow> int \<Rightarrow> 'a sorter \<Rightarrow> 'a list \<Rightarrow> bool" where
  "write_inv cmp n s xs =
     (NUM_RECORD_PER_FILE s = n \<and> opened_files s = [] \<and> record_list s = [] \<and> heap s = [] \<and>
      mset (concat (files s)) = mset xs \<and>
      (if xs = [] then files s = [] \<and> \<not> data s \<and> isFull s
       else data s \<and> files s \<noteq> [] \<and> last (files s) \<noteq> [] \<and>
            index s = int (length (last (files s))) \<and> index s \<le> n \<and>
            (isFull s \<longleftrightarrow> index s = n) \<and>
            (\<forall>f\<in>set (butlast (files s)). f \<noteq> [] \<and> sorted_wrt (\<lambda>a b. cmp a b \<le> 0) f)))"

section \<open>Example inputs\<close>

text \<open>
  Scenario S3 of the specification: table \<open>t\<close> with one index on \<open>(a, b, c)\<close> and the
  conditions \<open>b = 1\<close>, \<open>a = 2\<close>, \<open>c > 0\<close>.
\<close>

definition mk_col :: "string \<Rightarrow> string \<Rightarrow> ColMeta" where
  "mk_col t c = \<lparr>ColMeta.tab_name = t, name = c\<rparr>"

definition lit_cond :: "string \<Rightarrow> string \<Rightarrow> CompOp \<Rightarrow> int \<Rightarrow> int Condition" where
  "lit_cond t c cmp v =
     \<lparr>lhs_col = \<lparr>TabCol.tab_name = t, col_name = c\<rparr>, op = cmp, is_rhs_val = True,
      rhs_col = \<lparr>TabCol.tab_name = [], col_name = []\<rparr>, rhs_val = v\<rparr>"

definition s3_tab :: TabMeta where
  "s3_tab = \<lparr>TabMeta.name = ''t'',
             cols = [mk_col ''t'' ''a'', mk_col ''t'' ''b'', mk_col ''t'' ''c''],
             indexes = [\<lparr>IndexMeta.cols = [mk_col ''t'' ''a'', mk_col ''t'' ''b'', mk_col ''t'' ''c'']\<rparr>]\<rparr>"

definition s3_conds :: "int Condition list" where
  "s3_conds = [lit_cond ''t'' ''b'' OP_EQ 1, lit_cond ''t'' ''a'' OP_EQ 2, lit_cond ''t'' ''c'' OP_GT 0]"

text \<open>
  Table \<open>t\<close> with the indexes \<open>(d)\<close>, \<open>(c)\<close>, \<open>(a, b)\<close>, \<open>(b, a)\<close>, \<open>(a)\<close> in this order:
  under the conditions of S3 they score 0, 1, 2, 2 and 1.
\<close>

definition tie_tab :: TabMeta where
  "tie_tab = \<lparr>TabMeta.name = ''t'',
              cols = [mk_col ''t'' ''a'', mk_col ''t'' ''b'', mk_col ''t'' ''c'', mk_col ''t'' ''d''],
              indexes = [\<lparr>IndexMeta.cols = [mk_col ''t'' ''d'']\<rparr>,
                         \<lparr>IndexMeta.cols = [mk_col ''t'' ''c'']\<rparr>,
                         \<lparr>IndexMeta.cols = [mk_col ''t'' ''a'', mk_col ''t'' ''b'']\<rparr>,
                         \<lparr>IndexMeta.cols = [mk_col ''t'' ''b'', mk_col ''t'' ''a'']\<rparr>,
                         \<lparr>IndexMeta.cols = [mk_col ''t'' ''a'']\<rparr>]\<rparr>"

text \<open>
  What a move leaves behind with the usual standard libraries: the strings are empty,
  the other fields are copied.
\<close>

definition emptied :: "int Condition \<Rightarrow> int Condition" where
  "emptied c = c\<lparr>lhs_col := \<lparr>TabCol.tab_name = [], col_name = []\<rparr>,
                  rhs_col := \<lparr>TabCol.tab_name = [], col_name = []\<rparr>\<rparr>"

text \<open>
  A catalog without indexes, a column-against-column condition, and a \<open>SELECT\<close> query.
\<close>

definition plain_db :: "string \<Rightarrow> TabMeta" where
  "plain_db t = \<lparr>TabMeta.name = t, cols = [], indexes = []\<rparr>"

definition col_cond :: "string \<Rightarrow> string \<Rightarrow> CompOp \<Rightarrow> string \<Rightarrow> string \<Rightarrow> int Condition" where
  "col_cond t c cmp t' c' =
     \<lparr>lhs_col = \<lparr>TabCol.tab_name = t, col_name = c\<rparr>, op = cmp, is_rhs_val = False,
      rhs_col = \<lparr>TabCol.tab_name = t', col_name = c'\<rparr>, rhs_val = 0\<rparr>"

definition select_query :: "TreeNode \<Rightarrow> string list \<Rightarrow> int Condition list \<Rightarrow> int Query" where
  "select_query root tabs cs =
     \<lparr>parse = root, tables = tabs, conds = cs, cols = [], vals = [], set_clauses = [],
      has_aggr = False, group_cols = [], having_conds = []\<rparr>"

text \<open>
  Scenario S5: \<open>SELECT * FROM item, stock WHERE s_i_id = i_id ORDER BY i_id\<close>.
\<close>

definition s5_db :: "string \<Rightarrow> TabMeta" where
  "s5_db t =
     (if t = ''item'' then \<lparr>TabMeta.name = t, cols = [mk_col ''item'' ''i_id''], indexes = []\<rparr>
      else \<lparr>TabMeta.name = t, cols = [mk_col ''stock'' ''s_i_id''], indexes = []\<rparr>)"

definition s5_query :: "int Query" where
  "s5_query = select_query (SelectStmt True ''i_id'' OrderBy_DEFAULT) [''item'', ''stock'']
                [col_cond ''stock'' ''s_i_id'' OP_EQ ''item'' ''i_id'']"

text \<open>
  \<open>SELECT * FROM a, b, c WHERE c.x = b.y\<close>;
  \<open>SELECT * FROM r, s WHERE s.a = s.b\<close>;
  \<open>SELECT * FROM r, s ORDER BY a\<close> where both tables have a column \<open>a\<close>, and
  \<open>SELECT * FROM r ORDER BY z\<close> where no table has a column \<open>z\<close>.
\<close>

definition abc_query :: "int Query" where
  "abc_query = select_query (SelectStmt False [] OrderBy_DEFAULT) [''a'', ''b'', ''c'']
                 [col_cond ''c'' ''x'' OP_EQ ''b'' ''y'']"

definition rs_query :: "int Query" where
  "rs_query = select_query (SelectStmt False [] OrderBy_DEFAULT) [''r'', ''s'']
                [col_cond ''s'' ''a'' OP_EQ ''s'' ''b'']"

definition rs_db :: "string \<Rightarrow> TabMeta" where
  "rs_db t = \<lparr>TabMeta.name = t, cols = [mk_col t ''a''], indexes = []\<rparr>"

definition order_by_a_query :: "int Query" where
  "order_by_a_query = select_query (SelectStmt True ''a'' OrderBy_DEFAULT) [''r'', ''s''] []"

definition order_by_z_query :: "int Query" where
  "order_by_z_query = select_query (SelectStmt True ''z'' OrderBy_DEFAULT) [''r''] []"

text \<open>
  A catalog where table \<open>a\<close> has one index, on \<open>(x, x)\<close>, and no other table has an
  index; \<open>SELECT * FROM a, b WHERE a.x = b.y\<close>.
\<close>

definition dup_tab :: TabMeta where
  "dup_tab = \<lparr>TabMeta.name = ''a'', cols = [mk_col ''a'' ''x''],
              indexes = [\<lparr>IndexMeta.cols = [mk_col ''a'' ''x'', mk_col ''a'' ''x'']\<rparr>]\<rparr>"

definition dup_db :: "string \<Rightarrow> TabMeta" where
  "dup_db t = (if t = ''a'' then dup_tab else plain_db t)"

definition ab_query :: "int Query" where
  "ab_query = select_query (SelectStmt False [] OrderBy_DEFAULT) [''a'', ''b'']
                [col_cond ''a'' ''x'' OP_EQ ''b'' ''y'']"

text \<open>
  For the examples of the sorter: records are integers, or pairs of an integer key and
  a tag that the comparator does not look at; \<open>qsort_r\<close> is an insertion sort.
\<close>

definition int_cmp :: "int \<Rightarrow> int \<Rightarrow> int" where
  "int_cmp a b = (if a < b then - 1 else if a = b then 0 else 1)"

definition key_cmp :: "int \<times> string \<Rightarrow> int \<times> string \<Rightarrow> int" where
  "key_cmp a b = int_cmp (fst a) (fst b)"

fun insert_by :: "('a \<Rightarrow> 'a \<Rightarrow> int) \<Rightarrow> 'a \<Rightarrow> 'a list \<Rightarrow> 'a list" where
  "insert_by cmp x [] = [x]"
| "insert_by cmp x (y # ys) = (if cmp x y \<le> 0 then x # y # ys else y # insert_by cmp x ys)"

definition isort_by :: "('a \<Rightarrow> 'a \<Rightarrow> int) \<Rightarrow> 'a list \<Rightarrow> 'a list" where
  "isort_by cmp xs = foldr (insert_by cmp) xs []"

section \<open>Index selection: proofs\<close>

lemma parse_conds_upto:
  fixes cnds :: "'v Condition list"
  defines "f \<equiv> (\<lambda>i (eq_index_map, neq_index_map).
             if op (cnds ! i) = OP_EQ
             then (eq_index_map(col_name (lhs_col (cnds ! i)) \<mapsto> i), neq_index_map)
             else (eq_index_map, neq_index_map(col_name (lhs_col (cnds ! i)) \<mapsto> i)))"
  defines "P \<equiv> (\<lambda>k. fold f [0..<k] (Map.empty, Map.empty))"
  shows "fst (P k) c = Some i \<Longrightarrow> i < k \<and> op (cnds ! i) = OP_EQ \<and> col_name (lhs_col (cnds ! i)) = c"
    and "snd (P k) c = Some i \<Longrightarrow> i < k \<and> op (cnds ! i) \<noteq> OP_EQ \<and> col_name (lhs_col (cnds ! i)) = c"
    and "fst (P k) c \<noteq> None \<longleftrightarrow> (\<exists>j<k. op (cnds ! j) = OP_EQ \<and> col_name (lhs_col (cnds ! j)) = c)"
    and "snd (P k) c \<noteq> None \<longleftrightarrow> (\<exists>j<k. op (cnds ! j) \<noteq> OP_EQ \<and> col_name (lhs_col (cnds ! j)) = c)"
proof -
  have P0: "P 0 = (Map.empty, Map.empty)" by (simp add: P_def)
  have PS: "\<And>k. P (Suc k) = f k (P k)" by (simp add: P_def)
  have fstS: "\<And>k. fst (P (Suc k)) =
      (if op (cnds ! k) = OP_EQ then (fst (P k))(col_name (lhs_col (cnds ! k)) \<mapsto> k) else fst (P k))"
    unfolding PS by (simp add: f_def split_beta)
  have sndS: "\<And>k. snd (P (Suc k)) =
      (if op (cnds ! k) = OP_EQ then snd (P k) else (snd (P k))(col_name (lhs_col (cnds ! k)) \<mapsto> k))"
    unfolding PS by (simp add: f_def split_beta)
  show "fst (P k) c = Some i \<Longrightarrow> i < k \<and> op (cnds ! i) = OP_EQ \<and> col_name (lhs_col (cnds ! i)) = c"
  proof (induction k)
    case 0 then show ?case by (simp add: P0)
  next
    case (Suc k)
    show ?case
    proof (cases "op (cnds ! k) = OP_EQ \<and> col_name (lhs_col (cnds ! k)) = c")
      case True
      with Suc.prems have "i = k" by (simp add: fstS)
      with True show ?thesis by simp
    next
      case False
      with Suc.prems have "fst (P k) c = Some i" by (auto simp: fstS split: if_splits)
      from Suc.IH[OF this] show ?thesis by simp
    qed
  qed
  show "snd (P k) c = Some i \<Longrightarrow> i < k \<and> op (cnds ! i) \<noteq> OP_EQ \<and> col_name (lhs_col (cnds ! i)) = c"
  proof (induction k)
    case 0 then show ?case by (simp add: P0)
  next
    case (Suc k)
    show ?case
    proof (cases "op (cnds ! k) \<noteq> OP_EQ \<and> col_name (lhs_col (cnds ! k)) = c")
      case True
      with Suc.prems have "i = k" by (simp add: sndS)
      with True show ?thesis by simp
    next
      case False
      with Suc.prems have "snd (P k) c = Some i" by (auto simp: sndS split: if_splits)
      from Suc.IH[OF this] show ?thesis by simp
    qed
  qed
  show "fst (P k) c \<noteq> None \<longleftrightarrow> (\<exists>j<k. op (cnds ! j) = OP_EQ \<and> col_name (lhs_col (cnds ! j)) = c)"
  proof (induction k)
    case 0 then show ?case by (simp add: P0)
  next
    case (Suc k)
    show ?case
    proof (cases "op (cnds ! k) = OP_EQ \<and> col_name (lhs_col (cnds ! k)) = c")
      case True
      then show ?thesis by (auto simp: fstS)
    next
      case False
      then have "fst (P (Suc k)) c = fst (P k) c" by (auto simp: fstS)
      with Suc.IH False show ?thesis by (auto simp: less_Suc_eq)
    qed
  qed
  show "snd (P k) c \<noteq> None \<longleftrightarrow> (\<exists>j<k. op (cnds ! j) \<noteq> OP_EQ \<and> col_name (lhs_col (cnds ! j)) = c)"
  proof (induction k)
    case 0 then show ?case by (simp add: P0)
  next
    case (Suc k)
    show ?case
    proof (cases "op (cnds ! k) \<noteq> OP_EQ \<and> col_name (lhs_col (cnds ! k)) = c")
      case True
      then show ?thesis by (auto simp: sndS)
    next
      case False
      then have "snd (P (Suc k)) c = snd (P k) c" by (auto simp: sndS)
      with Suc.IH False show ?thesis by (auto simp: less_Suc_eq)
    qed
  qed
qed

lemma match_len_prefix_score:
  "match_len e n cs ln = ln + prefix_score (\<lambda>c. e c \<noteq> None) (\<lambda>c. n c \<noteq> None) (map ColMeta.name cs)"
  by (induction cs arbitrary: ln) auto

lemma prefix_score_le: "prefix_score p q xs \<le> length xs"
  by (induction xs) auto

lemma prefix_score_nth:
  "j < prefix_score p q xs \<Longrightarrow> p (xs ! j) \<or> q (xs ! j)"
  by (induction xs arbitrary: j) (auto simp: nth_Cons' split: if_splits)


lemma argmax_fold:
  fixes f :: "nat \<Rightarrow> nat"
  assumes "fold (\<lambda>i (mi, ml). let ln = f i in if ln > ml then (int i, ln) else (mi, ml)) [0..<n] (- 1, 0) = (mi, ml)"
  shows "(mi = - 1 \<longleftrightarrow> (\<forall>i<n. f i = 0)) \<and>
         (mi = - 1 \<longrightarrow> ml = 0) \<and>
         (mi \<noteq> - 1 \<longrightarrow> 0 \<le> mi \<and> nat mi < n \<and> f (nat mi) = ml \<and> 0 < ml \<and>
            (\<forall>j<n. f j \<le> ml) \<and> (\<forall>j<nat mi. f j < ml))"
  using assms
proof (induction n arbitrary: mi ml)
  case 0
  then show ?case by simp
next
  case (Suc n)
  obtain mi0 ml0 where st: "fold (\<lambda>i (mi, ml). let ln = f i in if ln > ml then (int i, ln) else (mi, ml)) [0..<n] (- 1, 0) = (mi0, ml0)"
    by (cases "fold (\<lambda>i (mi, ml). let ln = f i in if ln > ml then (int i, ln) else (mi, ml)) [0..<n] (- 1, 0)")
  note IH = Suc.IH[OF st]
  from Suc.prems have step: "(mi, ml) = (if f n > ml0 then (int n, f n) else (mi0, ml0))"
    unfolding upt_Suc_append[OF le0] fold_append comp_def st by (simp add: Let_def)
  show ?case
  proof (cases "f n > ml0")
    case True
    with step have [simp]: "mi = int n" "ml = f n" by auto
    from IH True show ?thesis
      by (auto simp: less_Suc_eq intro: le_less_trans less_imp_le) 
  next
    case False
    with step have [simp]: "mi = mi0" "ml = ml0" by auto
    from IH False show ?thesis
      by (auto simp: less_Suc_eq)
  qed
qed

lemma move_conds_total:
  "\<forall>k\<in>set ks. k < length cs \<Longrightarrow>
     \<exists>cs' new'. move_conds mv cs ks new = Inr (cs', new') \<and> length cs' = length cs \<and>
                length new' = length new + length ks"
proof (induction ks arbitrary: cs new)
  case Nil
  show ?case by simp
next
  case (Cons k ks)
  from Cons.prems have k: "k < length cs" by simp
  from Cons.prems have "\<forall>j\<in>set ks. j < length (cs[k := mv (cs ! k)])" by simp
  from Cons.IH[OF this, of "new @ [cs ! k]"] k show ?case by auto
qed

lemma move_conds_keeps:
  "move_conds mv cs ks new = Inr (cs', new') \<Longrightarrow>
     set new \<subseteq> set new' \<and> (\<forall>k\<in>set ks. cs ! k \<in> set new') \<and>
     (\<forall>j. j \<notin> set ks \<longrightarrow> cs' ! j = cs ! j)"
proof (induction ks arbitrary: cs new)
  case Nil
  then show ?case by simp
next
  case (Cons k ks)
  from Cons.prems have k: "k < length cs"
    and rec: "move_conds mv (cs[k := mv (cs ! k)]) ks (new @ [cs ! k]) = Inr (cs', new')"
    by (auto split: if_splits)
  note IH = Cons.IH[OF rec]
  from IH have sub: "set (new @ [cs ! k]) \<subseteq> set new'" by blast
  from IH have mem: "\<forall>j\<in>set ks. cs[k := mv (cs ! k)] ! j \<in> set new'" by blast
  from IH have rest: "\<forall>j. j \<notin> set ks \<longrightarrow> cs' ! j = cs[k := mv (cs ! k)] ! j" by blast
  show ?case
  proof (intro conjI ballI allI impI)
    show "set new \<subseteq> set new'" using sub by auto
  next
    fix j assume j: "j \<in> set (k # ks)"
    show "cs ! j \<in> set new'"
    proof (cases "j = k")
      case True
      then show ?thesis using sub by auto
    next
      case False
      with j have "j \<in> set ks" by simp
      with mem have "cs[k := mv (cs ! k)] ! j \<in> set new'" by blast
      with False show ?thesis by simp
    qed
  next
    fix j assume j: "j \<notin> set (k # ks)"
    then have "j \<notin> set ks" "j \<noteq> k" by auto
    with rest show "cs' ! j = cs ! j" by simp
  qed
qed

lemma left_match_eq:
  assumes "\<forall>j<m. e (ColMeta.name (cs ! j)) \<noteq> None \<or> n (ColMeta.name (cs ! j)) \<noteq> None"
  shows "left_match e n cs m =
           map (\<lambda>j. case e (ColMeta.name (cs ! j)) of Some k \<Rightarrow> k
                     | None \<Rightarrow> the (n (ColMeta.name (cs ! j)))) [0..<m]"
  using assms unfolding left_match_def
proof (induction m)
  case 0
  show ?case by simp
next
  case (Suc m)
  then have IH: "fold
     (\<lambda>i left_match_index.
         case e (ColMeta.name (cs ! i)) of
         None \<Rightarrow> (case n (ColMeta.name (cs ! i)) of None \<Rightarrow> left_match_index | Some k \<Rightarrow> left_match_index @ [k])
         | Some k \<Rightarrow> left_match_index @ [k])
     [0..<m] [] =
    map (\<lambda>j. case e (ColMeta.name (cs ! j)) of None \<Rightarrow> the (n (ColMeta.name (cs ! j))) | Some k \<Rightarrow> k) [0..<m]"
    by simp
  from Suc.prems have "e (ColMeta.name (cs ! m)) \<noteq> None \<or> n (ColMeta.name (cs ! m)) \<noteq> None" by simp
  then show ?case
    unfolding upt_Suc_append[OF le0] fold_append comp_def IH
    by (auto split: option.splits)
qed

lemma parse_conds_maps:
  assumes "parse_conds cnds = (e, n)"
  shows "(\<lambda>c. e c \<noteq> None) = under_eq cnds" 
    and "(\<lambda>c. n c \<noteq> None) = under_neq cnds"
    and "e c = Some i \<Longrightarrow> i < length cnds \<and> col_name (lhs_col (cnds ! i)) = c"
    and "n c = Some i \<Longrightarrow> i < length cnds \<and> col_name (lhs_col (cnds ! i)) = c"
proof -
  from assms have e: "e = fst (parse_conds cnds)" and n: "n = snd (parse_conds cnds)" by simp_all
  show "(\<lambda>c. e c \<noteq> None) = under_eq cnds"
  proof
    fix c
    show "(e c \<noteq> None) = under_eq cnds c"
      unfolding e parse_conds_def under_eq_def parse_conds_upto(3)
      by (metis in_set_conv_nth)
  qed
  show "(\<lambda>c. n c \<noteq> None) = under_neq cnds"
  proof
    fix c
    show "(n c \<noteq> None) = under_neq cnds c"
      unfolding n parse_conds_def under_neq_def parse_conds_upto(4)
      by (metis in_set_conv_nth)
  qed
  show "e c = Some i \<Longrightarrow> i < length cnds \<and> col_name (lhs_col (cnds ! i)) = c"
    unfolding e parse_conds_def using parse_conds_upto(1)[of cnds "length cnds" c i] by blast
  show "n c = Some i \<Longrightarrow> i < length cnds \<and> col_name (lhs_col (cnds ! i)) = c"
    unfolding n parse_conds_def using parse_conds_upto(2)[of cnds "length cnds" c i] by blast
qed

lemma match_len_index_score:
  assumes "parse_conds cnds = (e, n)"
  shows "match_len e n (IndexMeta.cols (indexes tab ! i)) 0 = index_score tab cnds i"
  unfolding index_score_def match_len_prefix_score parse_conds_maps(1,2)[OF assms] by simp

lemma max_left_match_spec:
  assumes en: "parse_conds cnds = (e, n)"
    and mm: "max_left_match e n (indexes tab) = (mi, ml)"
  shows "(mi = - 1 \<longleftrightarrow> (\<forall>i<length (indexes tab). index_score tab cnds i = 0)) \<and>
         (mi = - 1 \<longrightarrow> ml = 0) \<and>
         (mi \<noteq> - 1 \<longrightarrow> 0 \<le> mi \<and> nat mi < length (indexes tab) \<and>
            index_score tab cnds (nat mi) = ml \<and> 0 < ml \<and>
            (\<forall>j<length (indexes tab). index_score tab cnds j \<le> ml) \<and>
            (\<forall>j<nat mi. index_score tab cnds j < ml))"
proof -
  from mm have "fold (\<lambda>i (mi, ml). let ln = index_score tab cnds i in
                      if ln > ml then (int i, ln) else (mi, ml))
                    [0..<length (indexes tab)] (- 1, 0) = (mi, ml)"
    by (simp add: max_left_match_def match_len_index_score[OF en])
  from argmax_fold[OF this] show ?thesis .
qed

lemma left_match_props:
  assumes en: "parse_conds cnds = (e, n)"
    and ml: "ml = match_len e n cs 0"
  shows "length (left_match e n cs ml) = ml"
    and "\<forall>k\<in>set (left_match e n cs ml). k < length cnds"
    and "map (\<lambda>k. col_name (lhs_col (cnds ! k))) (left_match e n cs ml) = take ml (map ColMeta.name cs)"
proof -
  let ?pick = "\<lambda>j. case e (ColMeta.name (cs ! j)) of Some k \<Rightarrow> k
                     | None \<Rightarrow> the (n (ColMeta.name (cs ! j)))"
  have ps: "ml = prefix_score (\<lambda>c. e c \<noteq> None) (\<lambda>c. n c \<noteq> None) (map ColMeta.name cs)"
    unfolding ml match_len_prefix_score by simp
  have le: "ml \<le> length cs" unfolding ps using prefix_score_le[of _ _ "map ColMeta.name cs"] by simp
  have def: "\<forall>j<ml. e (ColMeta.name (cs ! j)) \<noteq> None \<or> n (ColMeta.name (cs ! j)) \<noteq> None"
  proof (intro allI impI)
    fix j assume j: "j < ml"
    from prefix_score_nth[OF j[unfolded ps]] j le
    show "e (ColMeta.name (cs ! j)) \<noteq> None \<or> n (ColMeta.name (cs ! j)) \<noteq> None" by simp
  qed
  have lm: "left_match e n cs ml = map ?pick [0..<ml]" by (rule left_match_eq[OF def])
  have pick: "\<And>j. j < ml \<Longrightarrow> ?pick j < length cnds \<and> col_name (lhs_col (cnds ! ?pick j)) = ColMeta.name (cs ! j)"
  proof -
    fix j assume j: "j < ml"
    show "?pick j < length cnds \<and> col_name (lhs_col (cnds ! ?pick j)) = ColMeta.name (cs ! j)"
    proof (cases "e (ColMeta.name (cs ! j))")
      case (Some k)
      with parse_conds_maps(3)[OF en Some] show ?thesis by simp
    next
      case None
      with def j obtain k where k: "n (ColMeta.name (cs ! j)) = Some k" by auto
      with parse_conds_maps(4)[OF en k] None show ?thesis by simp
    qed
  qed
  show "length (left_match e n cs ml) = ml" unfolding lm by simp
  show "\<forall>k\<in>set (left_match e n cs ml). k < length cnds" unfolding lm using pick by auto
  show "map (\<lambda>k. col_name (lhs_col (cnds ! k))) (left_match e n cs ml) = take ml (map ColMeta.name cs)"
    unfolding lm using pick le by (auto intro!: nth_equalityI)
qed

lemma get_index_cols_spec:
  fixes get_table :: "string \<Rightarrow> TabMeta" and cnds :: "'v Condition list" and t :: string
  defines "tab \<equiv> get_table t"
  shows "\<exists>flag cnds' names.
           get_index_cols mv get_table t cnds = Inr (flag, cnds', names) \<and>
           (\<not> flag \<longleftrightarrow> (\<forall>i<length (indexes tab). index_score tab cnds i = 0)) \<and>
           (flag \<longrightarrow>
              (\<exists>i<length (indexes tab).
                  names = map ColMeta.name (IndexMeta.cols (indexes tab ! i)) \<and>
                  0 < index_score tab cnds i \<and>
                  (\<forall>j<length (indexes tab). index_score tab cnds j \<le> index_score tab cnds i) \<and>
                  (\<forall>j<i. index_score tab cnds j < index_score tab cnds i)))"
proof -
  obtain e n where en: "parse_conds cnds = (e, n)" by (cases "parse_conds cnds")
  obtain mi ml where mm: "max_left_match e n (indexes tab) = (mi, ml)"
    by (cases "max_left_match e n (indexes tab)")
  note S = max_left_match_spec[OF en mm]
  show ?thesis
  proof (cases "mi = - 1")
    case True
    then have "get_index_cols mv get_table t cnds = Inr (False, cnds, [])"
      using en mm by (simp add: get_index_cols_def tab_def)
    with S True show ?thesis by auto
  next
    case False
    let ?cs = "IndexMeta.cols (indexes tab ! nat mi)"
    let ?lmi = "left_match e n ?cs ml"
    let ?rest = "filter (\<lambda>i. i \<notin> set ?lmi) [0..<length cnds]"
    from S False have mi: "0 \<le> mi" "nat mi < length (indexes tab)"
      and sc: "index_score tab cnds (nat mi) = ml" and pos: "0 < ml"
      and mx: "\<forall>j<length (indexes tab). index_score tab cnds j \<le> ml"
      and fst: "\<forall>j<nat mi. index_score tab cnds j < ml"
      by auto
    have ml: "ml = match_len e n ?cs 0" using sc match_len_index_score[OF en, of tab "nat mi"] by simp
    note P = left_match_props[OF en ml]
    from move_conds_total[OF P(2), of mv "[]"] obtain s1 n1 where
      m1: "move_conds mv cnds ?lmi [] = Inr (s1, n1)" and l1: "length s1 = length cnds" by blast
    have "\<forall>k\<in>set ?rest. k < length s1" unfolding l1 by simp
    from move_conds_total[OF this, of mv n1] obtain s2 n2 where
      m2: "move_conds mv s1 ?rest n1 = Inr (s2, n2)" by blast
    have g: "get_index_cols mv get_table t cnds = Inr (True, n2, map ColMeta.name ?cs)"
      using en mm False m1 m2 by (simp add: get_index_cols_def tab_def Let_def)
    have nz: "\<not> (\<forall>i<length (indexes tab). index_score tab cnds i = 0)"
      using S False by blast
    have "\<exists>i<length (indexes tab).
            map ColMeta.name ?cs = map ColMeta.name (IndexMeta.cols (indexes tab ! i)) \<and>
            0 < index_score tab cnds i \<and>
            (\<forall>j<length (indexes tab). index_score tab cnds j \<le> index_score tab cnds i) \<and>
            (\<forall>j<i. index_score tab cnds j < index_score tab cnds i)"
      using mi(2) sc pos mx fst by blast
    with g nz show ?thesis by blast
  qed
qed

lemma get_index_cols_keeps:
  assumes "get_index_cols mv get_table t cnds = Inr (flag, cnds', names)"
  shows "set cnds \<subseteq> set cnds'"
proof (cases flag)
  case False
  with assms show ?thesis
    by (auto simp: get_index_cols_def Let_def split: prod.splits sum.splits if_splits)
next
  case True
  obtain e n where en: "parse_conds cnds = (e, n)" by (cases "parse_conds cnds")
  obtain mi ml where mm: "max_left_match e n (indexes (get_table t)) = (mi, ml)"
    by (cases "max_left_match e n (indexes (get_table t))")
  let ?lmi = "left_match e n (IndexMeta.cols (indexes (get_table t) ! nat mi)) ml"
  let ?rest = "filter (\<lambda>i. i \<notin> set ?lmi) [0..<length cnds]"
  from assms True obtain s1 n1 s2 where
      m1: "move_conds mv cnds ?lmi [] = Inr (s1, n1)"
    and m2: "move_conds mv s1 ?rest n1 = Inr (s2, cnds')"
    by (auto simp: get_index_cols_def en mm Let_def split: if_splits sum.splits)
  note K1 = move_conds_keeps[OF m1]
  note K2 = move_conds_keeps[OF m2]
  show ?thesis
  proof
    fix c assume "c \<in> set cnds"
    then obtain k where k: "k < length cnds" "cnds ! k = c" by (metis in_set_conv_nth)
    show "c \<in> set cnds'"
    proof (cases "k \<in> set ?lmi")
      case True
      with K1 have "cnds ! k \<in> set n1" by blast
      with K2 k(2) show ?thesis by blast
    next
      case False
      with K1 have "s1 ! k = cnds ! k" by blast
      moreover from False k(1) have "k \<in> set ?rest" by simp
      with K2 have "s1 ! k \<in> set cnds'" by blast
      ultimately show ?thesis using k(2) by simp
    qed
  qed
qed

text \<open>
  Where the scored prefix of the chosen index repeats no column, the new condition list
  is a reordering of the old one: one condition for each column of the prefix, in
  index-key order, then the other conditions in their original order.
\<close>

lemma reorder_mset:
  assumes d: "distinct lmi" and b: "\<forall>k\<in>set lmi. k < length (xs :: 'a list)"
  shows "mset (map ((!) xs) lmi @ map ((!) xs) (filter (\<lambda>k. k \<notin> set lmi) [0..<length xs])) = mset xs"
proof -
  have "set lmi = set (filter (\<lambda>k. k \<in> set lmi) [0..<length xs])" using b by auto
  moreover have "distinct (filter (\<lambda>k. k \<in> set lmi) [0..<length xs])" by simp
  ultimately have "mset lmi = mset (filter (\<lambda>k. k \<in> set lmi) [0..<length xs])"
    using d set_eq_iff_mset_eq_distinct by blast
  then have "mset (lmi @ filter (\<lambda>k. k \<notin> set lmi) [0..<length xs]) = mset [0..<length xs]"
    using multiset_partition[of "mset [0..<length xs]" "\<lambda>k. k \<in> set lmi"]
    by (simp only: mset_append mset_filter)
  then have "mset (map ((!) xs) (lmi @ filter (\<lambda>k. k \<notin> set lmi) [0..<length xs]))
               = mset (map ((!) xs) [0..<length xs])"
    by (metis mset_map)
  then show ?thesis by (simp add: map_nth)
qed

lemma move_conds_distinct:
  "distinct ks \<Longrightarrow> \<forall>k\<in>set ks. k < length cs \<Longrightarrow>
     \<exists>cs'. move_conds mv cs ks new = Inr (cs', new @ map ((!) cs) ks) \<and>
           (\<forall>j. j \<notin> set ks \<longrightarrow> cs' ! j = cs ! j)"
proof (induction ks arbitrary: cs new)
  case Nil
  show ?case by simp
next
  case (Cons k ks)
  from Cons.prems have k: "k < length cs" and nk: "k \<notin> set ks" and d: "distinct ks" by simp_all
  from Cons.prems have b: "\<forall>j\<in>set ks. j < length (cs[k := mv (cs ! k)])" by simp
  from Cons.IH[OF d b, of "new @ [cs ! k]"] obtain cs' where
    m: "move_conds mv (cs[k := mv (cs ! k)]) ks (new @ [cs ! k])
          = Inr (cs', (new @ [cs ! k]) @ map ((!) (cs[k := mv (cs ! k)])) ks)"
    and r: "\<forall>j. j \<notin> set ks \<longrightarrow> cs' ! j = cs[k := mv (cs ! k)] ! j" by blast
  have "map ((!) (cs[k := mv (cs ! k)])) ks = map ((!) cs) ks"
  proof (intro map_cong refl)
    fix x assume "x \<in> set ks"
    with nk have "x \<noteq> k" by auto
    then show "cs[k := mv (cs ! k)] ! x = cs ! x" by simp
  qed
  with m have "move_conds mv cs (k # ks) new = Inr (cs', new @ map ((!) cs) (k # ks))"
    using k by simp
  moreover have "\<forall>j. j \<notin> set (k # ks) \<longrightarrow> cs' ! j = cs ! j" using r by simp
  ultimately show ?case by blast
qed

lemma get_index_cols_reorders:
  assumes g: "get_index_cols mv get_table t cnds = Inr (True, cnds', names)"
  shows "\<exists>i lmi. i < length (indexes (get_table t)) \<and>
           names = map ColMeta.name (IndexMeta.cols (indexes (get_table t) ! i)) \<and>
           length lmi = index_score (get_table t) cnds i \<and> (\<forall>k\<in>set lmi. k < length cnds) \<and>
           map (\<lambda>k. col_name (lhs_col (cnds ! k))) lmi = take (length lmi) names \<and>
           (distinct (take (length lmi) names) \<longrightarrow>
              cnds' = map ((!) cnds) lmi
                        @ map ((!) cnds) (filter (\<lambda>k. k \<notin> set lmi) [0..<length cnds]) \<and>
              mset cnds' = mset cnds)"
proof -
  obtain e n where en: "parse_conds cnds = (e, n)" by (cases "parse_conds cnds")
  obtain mi ml where mm: "max_left_match e n (indexes (get_table t)) = (mi, ml)"
    by (cases "max_left_match e n (indexes (get_table t))")
  let ?cs = "IndexMeta.cols (indexes (get_table t) ! nat mi)"
  let ?lmi = "left_match e n ?cs ml"
  let ?rest = "filter (\<lambda>i. i \<notin> set ?lmi) [0..<length cnds]"
  from g have ne: "mi \<noteq> - 1"
    by (auto simp: get_index_cols_def en mm Let_def split: if_splits)
  with g obtain s1 n1 s2 where
      m1: "move_conds mv cnds ?lmi [] = Inr (s1, n1)"
    and m2: "move_conds mv s1 ?rest n1 = Inr (s2, cnds')"
    and nm: "names = map ColMeta.name ?cs"
    by (auto simp: get_index_cols_def en mm Let_def split: if_splits sum.splits)
  from max_left_match_spec[OF en mm] ne have mi: "nat mi < length (indexes (get_table t))"
    and sc: "index_score (get_table t) cnds (nat mi) = ml" by auto
  have ml: "ml = match_len e n ?cs 0"
    using sc match_len_index_score[OF en, of "get_table t" "nat mi"] by simp
  note P = left_match_props[OF en ml]
  have cn: "map (\<lambda>k. col_name (lhs_col (cnds ! k))) ?lmi = take (length ?lmi) names"
    using P(3) P(1) nm by simp
  have R: "cnds' = map ((!) cnds) ?lmi @ map ((!) cnds) ?rest \<and> mset cnds' = mset cnds"
    if dn: "distinct (take (length ?lmi) names)"
  proof -
    from dn have "distinct (map (\<lambda>k. col_name (lhs_col (cnds ! k))) ?lmi)" unfolding cn .
    then have d: "distinct ?lmi" by (simp add: distinct_map)
    from move_conds_distinct[OF d P(2), of mv "[]"] m1 have n1: "n1 = map ((!) cnds) ?lmi"
      and s1: "\<forall>j. j \<notin> set ?lmi \<longrightarrow> s1 ! j = cnds ! j" by auto
    from move_conds_total[OF P(2), of mv "[]"] m1 have l1: "length s1 = length cnds" by auto
    have dr: "distinct ?rest" by simp
    have br: "\<forall>k\<in>set ?rest. k < length s1" unfolding l1 by simp
    from move_conds_distinct[OF dr br, of mv n1] m2 have "cnds' = n1 @ map ((!) s1) ?rest" by auto
    moreover have "map ((!) s1) ?rest = map ((!) cnds) ?rest"
    proof (intro map_cong refl)
      fix x assume "x \<in> set ?rest"
      then have "x \<notin> set ?lmi" by simp
      with s1 show "s1 ! x = cnds ! x" by blast
    qed
    ultimately have c: "cnds' = map ((!) cnds) ?lmi @ map ((!) cnds) ?rest" using n1 by simp
    from reorder_mset[OF d P(2)] c show ?thesis by simp
  qed
  from mi nm P(1) sc P(2) cn R show ?thesis by blast
qed

lemma s3_get_index_cols:
  "get_index_cols moved_from (\<lambda>_. s3_tab) ''t'' s3_conds =
     Inr (True, [lit_cond ''t'' ''a'' OP_EQ 2, lit_cond ''t'' ''b'' OP_EQ 1, lit_cond ''t'' ''c'' OP_GT 0],
          [''a'', ''b'', ''c''])"
  by code_simp

lemma tie_get_index_cols:
  "get_index_cols emptied (\<lambda>_. tie_tab) ''t'' s3_conds =
     Inr (True, [lit_cond ''t'' ''a'' OP_EQ 2, lit_cond ''t'' ''b'' OP_EQ 1, lit_cond ''t'' ''c'' OP_GT 0],
          [''a'', ''b''])"
  by code_simp

lemma tie_scores: "map (index_score tie_tab s3_conds) [0..<5] = [0, 1, 2, 2, 1]"
  by code_simp

lemma no_index_get_index_cols:
  "get_index_cols emptied (\<lambda>_. s3_tab) ''t'' [lit_cond ''t'' ''b'' OP_EQ 1] =
     Inr (False, [lit_cond ''t'' ''b'' OP_EQ 1], [])"
  by code_simp

lemma dup_get_index_cols:
  "get_index_cols moved_from (\<lambda>_. dup_tab) ''a'' [lit_cond ''a'' ''x'' OP_EQ 1] =
     Inr (True, [lit_cond ''a'' ''x'' OP_EQ 1, moved_from (lit_cond ''a'' ''x'' OP_EQ 1)],
          [''x'', ''x''])"
  by code_simp

subsection \<open>The claims on index selection\<close>

text \<open>
  Claim C2. For every table and condition list, \<open>get_index_cols\<close> returns, and it scores
  each index by walking its key columns in order (\<open>index_score\<close>: one point and continue
  for a column under an equality condition, one point and stop for a column under
  another condition, stop otherwise). It reports that there is no index exactly when
  every index scores 0. Otherwise the key it emits is the key of an index whose score is
  positive and the greatest of all, and every index declared before that one scores
  strictly less.
\<close>

theorem index_selection_leftmost_prefix:
  fixes get_table :: "string \<Rightarrow> TabMeta" and cnds :: "'v Condition list" and t :: string
  shows "\<exists>flag cnds' names.
           get_index_cols moved_from get_table t cnds = Inr (flag, cnds', names) \<and>
           (\<not> flag \<longleftrightarrow>
              (\<forall>i<length (indexes (get_table t)). index_score (get_table t) cnds i = 0)) \<and>
           (flag \<longrightarrow>
              (\<exists>i<length (indexes (get_table t)).
                  names = map ColMeta.name (IndexMeta.cols (indexes (get_table t) ! i)) \<and>
                  0 < index_score (get_table t) cnds i \<and>
                  (\<forall>j<length (indexes (get_table t)).
                      index_score (get_table t) cnds j \<le> index_score (get_table t) cnds i) \<and>
                  (\<forall>j<i. index_score (get_table t) cnds j < index_score (get_table t) cnds i)))"
  by (rule get_index_cols_spec)

theorem index_selection_leftmost_prefix_witness:
  "get_index_cols emptied (\<lambda>_. tie_tab) ''t'' s3_conds =
     Inr (True, [lit_cond ''t'' ''a'' OP_EQ 2, lit_cond ''t'' ''b'' OP_EQ 1, lit_cond ''t'' ''c'' OP_GT 0],
          [''a'', ''b'']) \<and>
   map (index_score tie_tab s3_conds) [0..<5] = [0, 1, 2, 2, 1] \<and>
   map ColMeta.name (IndexMeta.cols (indexes tie_tab ! 2)) = [''a'', ''b''] \<and>
   map ColMeta.name (IndexMeta.cols (indexes tie_tab ! 3)) = [''b'', ''a'']"
proof -
  from index_selection_leftmost_prefix[of emptied "\<lambda>_. tie_tab" "''t''" s3_conds]
  obtain flag cnds' names where
    g: "get_index_cols emptied (\<lambda>_. tie_tab) ''t'' s3_conds = Inr (flag, cnds', names)"
    and f: "flag \<longrightarrow> (\<exists>i<length (indexes tie_tab).
                names = map ColMeta.name (IndexMeta.cols (indexes tie_tab ! i)))"
    by blast
  from g have fl: "flag" unfolding tie_get_index_cols by simp
  from f[rule_format, OF fl] obtain i where i: "i < length (indexes tie_tab)"
    "names = map ColMeta.name (IndexMeta.cols (indexes tie_tab ! i))"
    by (elim exE conjE)
  have k: "map ColMeta.name (IndexMeta.cols (indexes tie_tab ! 2)) = [''a'', ''b'']"
    "map ColMeta.name (IndexMeta.cols (indexes tie_tab ! 3)) = [''b'', ''a'']"
    by (simp_all add: tie_tab_def mk_col_def)
  from i show ?thesis by (intro conjI tie_get_index_cols tie_scores k)
qed

text \<open>
  Claim C3. When \<open>get_index_cols\<close> selects an index, the new condition list should be a
  reordering of the old one. The code does not keep this for an index whose scored
  prefix repeats a column: the position of the condition on that column is entered in
  \<open>left_match_index\<close> once for each occurrence, the first loop moves the condition once
  for each entry, and the new list holds the condition followed by what the first move
  left behind. With an index on \<open>(x, x)\<close> and the one condition \<open>x = 1\<close> the result has two
  conditions.
\<close>

theorem index_scan_repeats_moved_condition:
  "get_index_cols moved_from (\<lambda>_. dup_tab) ''a'' [lit_cond ''a'' ''x'' OP_EQ 1] =
     Inr (True, [lit_cond ''a'' ''x'' OP_EQ 1, moved_from (lit_cond ''a'' ''x'' OP_EQ 1)],
          [''x'', ''x''])
   \<and> mset [lit_cond ''a'' ''x'' OP_EQ 1, moved_from (lit_cond ''a'' ''x'' OP_EQ 1)]
       \<noteq> mset [lit_cond ''a'' ''x'' OP_EQ 1]"
  by (simp add: dup_get_index_cols)

text \<open>
  Claim C10. When \<open>get_index_cols\<close> selects no index (it returns false), the condition
  list it was given is returned unchanged and \<open>index_col_names\<close> is empty.
\<close>

theorem get_index_cols_false_frame:
  "get_index_cols moved_from get_table t cnds = Inr (False, cnds', names)
     \<Longrightarrow> cnds' = cnds \<and> names = []"
  by (auto simp: get_index_cols_def Let_def split: prod.splits sum.splits if_splits)

theorem get_index_cols_false_frame_witness:
  "get_index_cols emptied (\<lambda>_. s3_tab) ''t'' [lit_cond ''t'' ''b'' OP_EQ 1]
      = Inr (False, [lit_cond ''t'' ''b'' OP_EQ 1], []) \<and>
   [lit_cond ''t'' ''b'' OP_EQ 1] = [lit_cond ''t'' ''b'' OP_EQ 1] \<and> ([] :: string list) = []"
  using get_index_cols_false_frame[OF no_index_get_index_cols] no_index_get_index_cols by simp
section \<open>Join-tree construction: proofs\<close>

lemma scan_tab_SomeD:
  "scan_tab p = Some t \<Longrightarrow> \<exists>tag cs ns. p = ScanPlan tag t cs ns"
  by (cases p) auto

lemma scan_tab_tables_of: "scan_tab p = Some t \<Longrightarrow> tables_of p = {t}"
  by (cases p) auto

lemma pop_conds_filter:
  "pop_conds cs t =
     (filter (\<lambda>c. (t = TabCol.tab_name (lhs_col c) \<and> is_rhs_val c)
                   \<or> TabCol.tab_name (lhs_col c) = TabCol.tab_name (rhs_col c)) cs,
      filter (\<lambda>c. \<not> ((t = TabCol.tab_name (lhs_col c) \<and> is_rhs_val c)
                   \<or> TabCol.tab_name (lhs_col c) = TabCol.tab_name (rhs_col c))) cs)"
  by (induction cs) (auto simp: Let_def)

lemma build_scans_spec:
  "build_scans moved_from get_table ts cs = Inr (scans, rest) \<Longrightarrow>
     map scan_tab scans = map Some ts \<and>
     set rest \<subseteq> set cs \<and>
     (\<forall>c\<in>set rest. \<forall>t\<in>set ts.
         \<not> (t = TabCol.tab_name (lhs_col c) \<and> is_rhs_val c) \<and>
         TabCol.tab_name (lhs_col c) \<noteq> TabCol.tab_name (rhs_col c))"
proof (induction ts arbitrary: cs scans rest)
  case Nil
  then show ?case by simp
next
  case (Cons t ts)
  obtain cur cs' where pc: "pop_conds cs t = (cur, cs')" by (cases "pop_conds cs t")
  from Cons.prems pc obtain ie cur' ns scans' where
      g: "get_index_cols moved_from get_table t cur = Inr (ie, cur', ns)"
    and b: "build_scans moved_from get_table ts cs' = Inr (scans', rest)"
    and s: "scans = (if ie then ScanPlan T_IndexScan t cur' ns else ScanPlan T_SeqScan t cur' []) # scans'"
    by (auto split: sum.splits prod.splits)
  note IH = Cons.IH[OF b]
  from pc have cs': "cs' = filter (\<lambda>c. \<not> ((t = TabCol.tab_name (lhs_col c) \<and> is_rhs_val c)
                   \<or> TabCol.tab_name (lhs_col c) = TabCol.tab_name (rhs_col c))) cs"
    by (simp add: pop_conds_filter)
  have sub: "set rest \<subseteq> set cs'" using IH by simp
  show ?case
  proof (intro conjI)
    show "map scan_tab scans = map Some (t # ts)" using IH s by simp
    show "set rest \<subseteq> set cs" using sub cs' by auto
    show "\<forall>c\<in>set rest. \<forall>t\<in>set (t # ts).
            \<not> (t = TabCol.tab_name (lhs_col c) \<and> is_rhs_val c) \<and>
            TabCol.tab_name (lhs_col c) \<noteq> TabCol.tab_name (rhs_col c)"
    proof (intro ballI)
      fix c u assume c: "c \<in> set rest" and u: "u \<in> set (t # ts)"
      from c sub have "c \<in> set cs'" by auto
      then have 1: "\<not> (t = TabCol.tab_name (lhs_col c) \<and> is_rhs_val c)"
        and 2: "TabCol.tab_name (lhs_col c) \<noteq> TabCol.tab_name (rhs_col c)"
        unfolding cs' by auto
      from IH c have 3: "\<forall>t\<in>set ts. \<not> (t = TabCol.tab_name (lhs_col c) \<and> is_rhs_val c)" by blast
      from u 1 2 3 show "\<not> (u = TabCol.tab_name (lhs_col c) \<and> is_rhs_val c) \<and>
            TabCol.tab_name (lhs_col c) \<noteq> TabCol.tab_name (rhs_col c)" by auto
    qed
  qed
qed

lemma pop_scan_from_spec:
  assumes "map scan_tab plans = map Some tabs"
  shows "\<exists>r. pop_scan_from i t plans = Inr r \<and>
           (case r of None \<Rightarrow> t \<notin> set tabs
            | Some j \<Rightarrow> i \<le> j \<and> j - i < length tabs \<and> tabs ! (j - i) = t \<and> (\<forall>k<j - i. tabs ! k \<noteq> t))"
  using assms
proof (induction plans arbitrary: i tabs)
  case Nil
  then show ?case by simp
next
  case (Cons p plans)
  then obtain u us where tabs: "tabs = u # us" and p: "scan_tab p = Some u"
    and rest: "map scan_tab plans = map Some us"
    by (cases tabs) auto
  from scan_tab_SomeD[OF p] obtain tag cs ns where pp: "p = ScanPlan tag u cs ns" by blast
  show ?case
  proof (cases "u = t")
    case True
    then show ?thesis by (simp add: pp tabs)
  next
    case False
    from Cons.IH[OF rest, of "Suc i"] obtain r where
      r: "pop_scan_from (Suc i) t plans = Inr r"
      and c: "(case r of None \<Rightarrow> t \<notin> set us
            | Some j \<Rightarrow> Suc i \<le> j \<and> j - Suc i < length us \<and> us ! (j - Suc i) = t \<and> (\<forall>k<j - Suc i. us ! k \<noteq> t))"
      by blast
    show ?thesis
    proof (cases r)
      case None
      with r c False show ?thesis by (simp add: pp tabs)
    next
      case (Some j)
      with c have j: "Suc i \<le> j" "j - Suc i < length us" "us ! (j - Suc i) = t"
        "\<forall>k<j - Suc i. us ! k \<noteq> t" by simp_all
      from j(1) have ji: "j - i = Suc (j - Suc i)" by simp
      have "\<forall>k<j - i. (u # us) ! k \<noteq> t"
      proof (intro allI impI)
        fix k assume "k < j - i"
        with ji j(4) False show "(u # us) ! k \<noteq> t" by (cases k) auto
      qed
      with r Some False j ji show ?thesis by (simp add: pp tabs)
    qed
  qed
qed

lemma pop_scan_spec:
  assumes "map scan_tab plans = map Some tabs"
  shows "(t \<notin> set tabs \<and> pop_scan sc t jt plans = Inr (None, sc, jt)) \<or>
         (\<exists>j. j < length tabs \<and> tabs ! j = t \<and> (\<forall>k<j. tabs ! k \<noteq> t) \<and>
              pop_scan sc t jt plans = Inr (Some j, sc[j := 1], jt @ [t]))"
proof -
  from pop_scan_from_spec[OF assms, of 0 t] obtain r where
    r: "pop_scan_from 0 t plans = Inr r"
    and c: "(case r of None \<Rightarrow> t \<notin> set tabs
            | Some j \<Rightarrow> 0 \<le> j \<and> j - 0 < length tabs \<and> tabs ! (j - 0) = t \<and> (\<forall>k<j - 0. tabs ! k \<noteq> t))"
    by blast
  show ?thesis
  proof (cases r)
    case None
    with r c show ?thesis by (simp add: pop_scan_def)
  next
    case (Some j)
    with r c show ?thesis by (simp add: pop_scan_def)
  qed
qed

lemma plan_at_scan:
  assumes "map scan_tab plans = map Some tabs" "j < length tabs"
  shows "scan_tab (plan_at plans (Some j)) = Some (tabs ! j)"
proof -
  from assms have l: "length plans = length tabs" by (metis length_map)
  have "scan_tab (plans ! j) = map scan_tab plans ! j" using l assms(2) by simp
  also have "\<dots> = map Some tabs ! j" using assms(1) by simp
  also have "\<dots> = Some (tabs ! j)" using assms(2) by simp
  finally show ?thesis by (simp add: plan_at_def)
qed

lemma first_join_shape:
  assumes scans: "map scan_tab scans = map Some tabs"
    and len: "2 \<le> length tabs"
    and fj: "first_join moved_from nl sm get_table scans it sc jt = Inr (sc', jt', plan)"
  defines "swap \<equiv> TabCol.tab_name (lhs_col it) = tabs ! 1 \<and> TabCol.tab_name (rhs_col it) = tabs ! 0
                    \<and> tabs ! 0 \<noteq> tabs ! 1"
  defines "it' \<equiv> if swap then swap_sides it else it"
  shows "\<exists>tag left right cs. plan = JoinPlan tag left right cs \<and>
           it' \<in> set cs \<and> (nl \<longrightarrow> cs = [it']) \<and>
           (TabCol.tab_name (lhs_col it') \<in> set tabs \<longrightarrow> scan_tab left = Some (TabCol.tab_name (lhs_col it'))) \<and>
           (TabCol.tab_name (rhs_col it') \<in> set tabs \<longrightarrow> scan_tab right = Some (TabCol.tab_name (rhs_col it')))"
proof -
  let ?lt = "TabCol.tab_name (lhs_col it)" and ?rt = "TabCol.tab_name (rhs_col it)"
  from pop_scan_spec[OF scans, of ?lt sc jt] obtain l sc1 jt1 where
    p1: "pop_scan sc ?lt jt scans = Inr (l, sc1, jt1)"
    and L: "(?lt \<notin> set tabs \<and> l = None) \<or>
            (\<exists>j. j < length tabs \<and> tabs ! j = ?lt \<and> (\<forall>k<j. tabs ! k \<noteq> ?lt) \<and> l = Some j)"
    by blast
  from pop_scan_spec[OF scans, of ?rt sc1 jt1] obtain r sc2 jt2 where
    p2: "pop_scan sc1 ?rt jt1 scans = Inr (r, sc2, jt2)"
    and R: "(?rt \<notin> set tabs \<and> r = None) \<or>
            (\<exists>j. j < length tabs \<and> tabs ! j = ?rt \<and> (\<forall>k<j. tabs ! k \<noteq> ?rt) \<and> r = Some j)"
    by blast
  have ls: "length scans = length tabs" using scans by (metis length_map)
  have l1: "l = Some 1 \<longleftrightarrow> (?lt = tabs ! 1 \<and> tabs ! 0 \<noteq> ?lt)"
  proof
    assume "l = Some 1"
    with L show "?lt = tabs ! 1 \<and> tabs ! 0 \<noteq> ?lt" by auto
  next
    assume a: "?lt = tabs ! 1 \<and> tabs ! 0 \<noteq> ?lt"
    have "1 < length tabs" using len by linarith
    then have "tabs ! 1 \<in> set tabs" by (rule nth_mem)
    with a have "?lt \<in> set tabs" by simp
    with L obtain j where j: "j < length tabs" "tabs ! j = ?lt" "\<forall>k<j. tabs ! k \<noteq> ?lt" "l = Some j"
      by auto
    from j(3) a have "\<not> 1 < j" by auto
    moreover have "j \<noteq> 0"
    proof
      assume "j = 0"
      with j(2) have "tabs ! 0 = ?lt" by simp
      with a show False by simp
    qed
    ultimately have "j = 1" by simp
    with j show "l = Some 1" by simp
  qed
  have r0: "r = Some 0 \<longleftrightarrow> ?rt = tabs ! 0"
  proof
    assume "r = Some 0"
    with R show "?rt = tabs ! 0" by auto
  next
    assume a: "?rt = tabs ! 0"
    have "0 < length tabs" using len by linarith
    then have "tabs ! 0 \<in> set tabs" by (rule nth_mem)
    with a have "?rt \<in> set tabs" by simp
    with R obtain j where j: "j < length tabs" "tabs ! j = ?rt" "\<forall>k<j. tabs ! k \<noteq> ?rt" "r = Some j"
      by auto
    from j(3) a have "\<not> 0 < j" by auto
    with j show "r = Some 0" by simp
  qed
  have sw: "(l = Some 1 \<and> r = Some 0) \<longleftrightarrow> swap"
    unfolding swap_def l1 r0 by auto
  define left' where "left' = plan_at scans (if swap then r else l)"
  define right' where "right' = plan_at scans (if swap then l else r)"
  have PL: "\<And>t p. (t \<notin> set tabs \<and> p = None) \<or>
            (\<exists>j. j < length tabs \<and> tabs ! j = t \<and> (\<forall>k<j. tabs ! k \<noteq> t) \<and> p = Some j)
          \<Longrightarrow> t \<in> set tabs \<Longrightarrow> scan_tab (plan_at scans p) = Some t"
    using plan_at_scan[OF scans] by auto
  have lt': "TabCol.tab_name (lhs_col it') = (if swap then ?rt else ?lt)"
    and rt': "TabCol.tab_name (rhs_col it') = (if swap then ?lt else ?rt)"
    by (simp_all add: it'_def swap_sides_def)
  have A: "TabCol.tab_name (lhs_col it') \<in> set tabs \<longrightarrow> scan_tab left' = Some (TabCol.tab_name (lhs_col it'))"
    unfolding lt' left'_def using PL[OF L] PL[OF R] by simp
  have B: "TabCol.tab_name (rhs_col it') \<in> set tabs \<longrightarrow> scan_tab right' = Some (TabCol.tab_name (rhs_col it'))"
    unfolding rt' right'_def using PL[OF L] PL[OF R] by simp
  have n2: "\<not> length scans < 2" using len ls by simp
  have E: "first_join moved_from nl sm get_table scans it sc jt = (if nl \<and> sm then Inr (sc2, jt2, JoinPlan T_NestLoop left' right' [it'])
          else if nl then Inr (sc2, jt2, JoinPlan T_NestLoop left' right' [it'])
          else if sm
          then (case get_index_cols moved_from get_table (TabCol.tab_name (lhs_col it')) [it'] of
                  Inl e \<Rightarrow> Inl e
                | Inr (left_index_exist, join_conds1, left_index_col_name) \<Rightarrow>
               (case get_index_cols moved_from get_table (TabCol.tab_name (rhs_col it')) join_conds1 of
                  Inl e \<Rightarrow> Inl e
                | Inr (right_index_exist, join_conds2, right_index_col_name) \<Rightarrow>
                  if left_index_exist \<and> right_index_exist
                  then Inr (sc2, jt2,
                         JoinPlan T_SortMergeWithIndex
                           (ScanPlan T_IndexScan (TabCol.tab_name (lhs_col it')) [] left_index_col_name)
                           (ScanPlan T_IndexScan (TabCol.tab_name (rhs_col it')) [] right_index_col_name)
                           join_conds2)
                  else Inr (sc2, jt2, JoinPlan T_SortMerge left' right' join_conds2)))
          else Inl (RMDBError ''No join executor selected!''))"
  proof (cases swap)
    case True
    then have e: "it' = swap_sides it" "left' = plan_at scans r" "right' = plan_at scans l"
      by (simp_all add: left'_def right'_def it'_def)
    from True sw have lr: "l = Some (Suc 0)" "r = Some 0" by auto
    show ?thesis unfolding e using p1 p2 unfolding lr by (simp add: first_join_def Let_def n2)
  next
    case False
    then have e: "it' = it" "left' = plan_at scans l" "right' = plan_at scans r"
      by (simp_all add: left'_def right'_def it'_def)
    from False sw have lr: "(l = Some (Suc 0) \<and> r = Some 0) = False" by auto
    show ?thesis unfolding e by (simp add: first_join_def p1 p2 Let_def n2 lr)
  qed
  note F = fj[unfolded E]
  show ?thesis
  proof (cases "nl")
    case True
    with F have "plan = JoinPlan T_NestLoop left' right' [it']" by (auto split: if_splits)
    with A B show ?thesis by simp
  next
    case False
    with F have sm: sm by (auto split: if_splits)
    from F False sm obtain b1 c1 n1 b2 c2 n2 where
      g1: "get_index_cols moved_from get_table (TabCol.tab_name (lhs_col it')) [it'] = Inr (b1, c1, n1)"
      and g2: "get_index_cols moved_from get_table (TabCol.tab_name (rhs_col it')) c1 = Inr (b2, c2, n2)"
      and pl: "plan = (if b1 \<and> b2
                 then JoinPlan T_SortMergeWithIndex
                           (ScanPlan T_IndexScan (TabCol.tab_name (lhs_col it')) [] n1)
                           (ScanPlan T_IndexScan (TabCol.tab_name (rhs_col it')) [] n2) c2
                 else JoinPlan T_SortMerge left' right' c2)"
      by (auto split: sum.splits prod.splits if_splits)
    from get_index_cols_keeps[OF g1] have "it' \<in> set c1" by simp
    with get_index_cols_keeps[OF g2] have c2: "it' \<in> set c2" by blast
    show ?thesis
    proof (cases "b1 \<and> b2")
      case True
      with pl have "plan = JoinPlan T_SortMergeWithIndex
                           (ScanPlan T_IndexScan (TabCol.tab_name (lhs_col it')) [] n1)
                           (ScanPlan T_IndexScan (TabCol.tab_name (rhs_col it')) [] n2) c2" by simp
      with c2 \<open>\<not> nl\<close> show ?thesis by simp
    next
      case False
      with pl have "plan = JoinPlan T_SortMerge left' right' c2" by simp
      with A B c2 \<open>\<not> nl\<close> show ?thesis by blast
    qed
  qed
qed

lemma push_conds_inv:
  "tables_of (snd (push_conds c p)) = tables_of p \<and>
   (joins_normalized p \<longrightarrow> joins_normalized (snd (push_conds c p))) \<and>
   (fst (push_conds c p) = 1 \<longrightarrow> TabCol.tab_name (lhs_col c) \<in> tables_of p) \<and>
   (fst (push_conds c p) = 2 \<longrightarrow> TabCol.tab_name (rhs_col c) \<in> tables_of p) \<and>
   (fst (push_conds c p) \<noteq> 3 \<longrightarrow> snd (push_conds c p) = p) \<and>
   fst (push_conds c p) \<le> 3"
proof (induction p)
  case NullPlan
  show ?case by simp
next
  case (ScanPlan tag tab cs ns)
  show ?case by simp
next
  case (JoinPlan tag l r cs)
  obtain lr l' where pl: "push_conds c l = (lr, l')" by (cases "push_conds c l")
  obtain rr r' where pr: "push_conds c r = (rr, r')" by (cases "push_conds c r")
  from JoinPlan(1)[unfolded pl] have L:
    "tables_of l' = tables_of l" "joins_normalized l \<longrightarrow> joins_normalized l'"
    "lr = 1 \<longrightarrow> TabCol.tab_name (lhs_col c) \<in> tables_of l"
    "lr = 2 \<longrightarrow> TabCol.tab_name (rhs_col c) \<in> tables_of l"
    "lr \<noteq> 3 \<longrightarrow> l' = l" "lr \<le> 3" by simp_all
  from JoinPlan(2)[unfolded pr] have R:
    "tables_of r' = tables_of r" "joins_normalized r \<longrightarrow> joins_normalized r'"
    "rr = 1 \<longrightarrow> TabCol.tab_name (lhs_col c) \<in> tables_of r"
    "rr = 2 \<longrightarrow> TabCol.tab_name (rhs_col c) \<in> tables_of r"
    "rr \<noteq> 3 \<longrightarrow> r' = r" "rr \<le> 3" by simp_all
  show ?case
  proof (cases "lr = 3")
    case True
    then show ?thesis using L by (simp add: pl)
  next
    case l3: False
    show ?thesis
    proof (cases "rr = 3")
      case True
      then show ?thesis using l3 L R by (simp add: pl pr)
    next
      case r3: False
      show ?thesis
      proof (cases "lr = 0 \<or> rr = 0")
        case True
        then show ?thesis using l3 r3 L R by (auto simp: pl pr)
      next
        case False
        show ?thesis
        proof (cases "lr = 2")
          case True
          with L have "TabCol.tab_name (rhs_col c) \<in> tables_of l" by simp
          then show ?thesis using True l3 r3 False L R
            by (simp add: pl pr swap_sides_def)
        next
          case n2: False
          with False l3 L(6) have "lr = 1" by arith
          with L have "TabCol.tab_name (lhs_col c) \<in> tables_of l" by simp
          then show ?thesis using n2 l3 r3 False L R
            by (simp add: pl pr)
        qed
      qed
    qed
  qed
qed simp_all

lemma push_conds_attach:
  assumes "fst (push_conds c left) = 2" and "fst (push_conds c right) \<in> {1, 2}"
  shows "push_conds c (JoinPlan tag left right cs) =
           (3, JoinPlan tag left right
                 (cs @ [c\<lparr>lhs_col := rhs_col c, rhs_col := lhs_col c, op := swap_op (op c)\<rparr>]))"
proof -
  obtain l' where l: "push_conds c left = (2, l')" using assms(1) by (cases "push_conds c left") auto
  obtain rr r' where r: "push_conds c right = (rr, r')" by (cases "push_conds c right")
  from push_conds_inv[of c left] l have l': "l' = left" by simp
  from assms(2) r have rr: "rr = 1 \<or> rr = 2" by auto
  with push_conds_inv[of c right] r have r': "r' = right" by auto
  from rr show ?thesis by (auto simp: l r l' r' swap_sides_def)
qed

lemma rs_plan: "do_planner moved_from True False plain_db rs_query =
     Inr (DMLPlan T_select
            (ProjectionPlan T_Projection
               (JoinPlan T_NestLoop (ScanPlan T_SeqScan ''s'' [] [])
                  (ScanPlan T_SeqScan ''r'' [col_cond ''s'' ''a'' OP_EQ ''s'' ''b''] []) [])
               [])
            [] [] [] [])"
  by code_simp

lemma fold_last_match:
  "fold (\<lambda>c s. if P c then f c else s) xs d = (case find P (rev xs) of None \<Rightarrow> d | Some c \<Rightarrow> f c)"
proof (induction xs rule: rev_induct)
  case Nil
  show ?case by simp
next
  case (snoc x xs)
  then show ?case by simp
qed


subsection \<open>The claims on the plan tree\<close>

text \<open>
  Claim C4. Every condition attached to a \<open>ScanPlan\<close> of the plan returned by
  \<open>do_planner\<close> should be local to the table of that scan. The code does not keep this:
  the second disjunct of the test in \<open>pop_conds\<close> takes every condition whose two sides
  are on the same table, whatever that table is. For
  \<open>SELECT * FROM r, s WHERE s.a = s.b\<close> the condition is popped for \<open>r\<close>, the first
  table, and the scan of \<open>r\<close> carries a condition on \<open>s\<close>.
\<close>

theorem scan_gets_foreign_condition:
  "do_planner moved_from True False plain_db rs_query =
     Inr (DMLPlan T_select
            (ProjectionPlan T_Projection
               (JoinPlan T_NestLoop (ScanPlan T_SeqScan ''s'' [] [])
                  (ScanPlan T_SeqScan ''r'' [col_cond ''s'' ''a'' OP_EQ ''s'' ''b''] []) [])
               [])
            [] [] [] [])
   \<and> \<not> table_local ''r'' (col_cond ''s'' ''a'' OP_EQ ''s'' ''b'')
   \<and> pop_conds [col_cond ''s'' ''a'' OP_EQ ''s'' ''b''] ''r''
        = ([col_cond ''s'' ''a'' OP_EQ ''s'' ''b''], [])"
  by (simp add: rs_plan) (simp add: table_local_def col_cond_def)

lemma no_index_get_index_cols_any:
  "indexes (get_table t) = [] \<Longrightarrow> get_index_cols mv get_table t cs = Inr (False, cs, [])"
  by (simp add: get_index_cols_def max_left_match_def split: prod.splits)

lemma ab_scans:
  "build_scans moved_from dup_db [''a'', ''b''] [col_cond ''a'' ''x'' OP_EQ ''b'' ''y''] =
     Inr ([ScanPlan T_SeqScan ''a'' [] [], ScanPlan T_SeqScan ''b'' [] []],
          [col_cond ''a'' ''x'' OP_EQ ''b'' ''y''])"
  by code_simp

lemma ab_left:
  "get_index_cols moved_from dup_db ''a'' [col_cond ''a'' ''x'' OP_EQ ''b'' ''y''] =
     Inr (True, [col_cond ''a'' ''x'' OP_EQ ''b'' ''y'', moved_from (col_cond ''a'' ''x'' OP_EQ ''b'' ''y'')],
          [''x'', ''x''])"
  by code_simp

lemma ab_right:
  "get_index_cols moved_from dup_db ''b'' cs = Inr (False, cs, [])"
  by (rule no_index_get_index_cols_any) (simp add: dup_db_def plain_db_def)

lemma ab_first_join:
  "first_join moved_from False True dup_db
      [ScanPlan T_SeqScan ''a'' [] [], ScanPlan T_SeqScan ''b'' [] []]
      (col_cond ''a'' ''x'' OP_EQ ''b'' ''y'') [- 1, - 1] [[], []] =
     Inr ([1, 1], [[], [], ''a'', ''b''],
          JoinPlan T_SortMerge (ScanPlan T_SeqScan ''a'' [] []) (ScanPlan T_SeqScan ''b'' [] [])
            [col_cond ''a'' ''x'' OP_EQ ''b'' ''y'', moved_from (col_cond ''a'' ''x'' OP_EQ ''b'' ''y'')])"
proof -
  have l: "TabCol.tab_name (lhs_col (col_cond ''a'' ''x'' OP_EQ ''b'' ''y'')) = ''a''"
    and r: "TabCol.tab_name (rhs_col (col_cond ''a'' ''x'' OP_EQ ''b'' ''y'')) = ''b''"
    by (simp_all add: col_cond_def)
  show ?thesis
    unfolding first_join_def l r
    by (simp add: pop_scan_def plan_at_def Let_def l r ab_left ab_right)
qed

lemma ab_one_rel:
  "make_one_rel moved_from False True dup_db ab_query =
     Inr (JoinPlan T_SortMerge (ScanPlan T_SeqScan ''a'' [] []) (ScanPlan T_SeqScan ''b'' [] [])
            [col_cond ''a'' ''x'' OP_EQ ''b'' ''y'',
             moved_from (col_cond ''a'' ''x'' OP_EQ ''b'' ''y'')])"
proof -
  have r: "replicate (length [''a'', ''b'']) x = [x, x]" for x :: 'a
    by (simp add: numeral_2_eq_2)
  have q: "tables ab_query = [''a'', ''b'']"
    "Query.conds ab_query = [col_cond ''a'' ''x'' OP_EQ ''b'' ''y'']"
    by (simp_all add: ab_query_def select_query_def)
  show ?thesis
    unfolding make_one_rel_def q ab_scans r
    by (simp add: ab_first_join join_remaining_def)
qed

lemma ab_plan:
  "do_planner moved_from False True dup_db ab_query =
     Inr (DMLPlan T_select
            (ProjectionPlan T_Projection
               (JoinPlan T_SortMerge (ScanPlan T_SeqScan ''a'' [] []) (ScanPlan T_SeqScan ''b'' [] [])
                  [col_cond ''a'' ''x'' OP_EQ ''b'' ''y'',
                   moved_from (col_cond ''a'' ''x'' OP_EQ ''b'' ''y'')])
               [])
            [] [] [] [])"
proof -
  have q: "parse ab_query = SelectStmt False [] OrderBy_DEFAULT" "\<not> has_aggr ab_query"
    "group_cols ab_query = []" "Query.cols ab_query = []"
    by (simp_all add: ab_query_def select_query_def)
  show ?thesis
    by (simp add: do_planner_def generate_select_plan_def physical_optimization_def
          ab_one_rel generate_sort_plan_def generate_aggregation_group_plan_def q)
qed

text \<open>
  Claim C5. Every condition of a \<open>JoinPlan\<close> should have its \<open>lhs_col\<close> on a table of the
  left subtree. The code does not keep this when only the sort-merge join is enabled and
  the table on the left of the first join condition has an index that repeats a key
  column: \<open>get_index_cols\<close>, called on the list of that one condition, moves the
  condition twice, and the join receives the condition followed by the object that the
  first move left behind. For \<open>SELECT * FROM a, b WHERE a.x = b.y\<close> with an index on
  \<open>a(x, x)\<close> the second condition of the join is that object; with the strings emptied
  by the move, its \<open>lhs_col\<close> names no table of the left subtree.
\<close>

theorem sort_merge_join_gets_moved_from_condition:
  "do_planner moved_from False True dup_db ab_query =
     Inr (DMLPlan T_select
            (ProjectionPlan T_Projection
               (JoinPlan T_SortMerge (ScanPlan T_SeqScan ''a'' [] []) (ScanPlan T_SeqScan ''b'' [] [])
                  [col_cond ''a'' ''x'' OP_EQ ''b'' ''y'',
                   moved_from (col_cond ''a'' ''x'' OP_EQ ''b'' ''y'')])
               [])
            [] [] [] [])
   \<and> TabCol.tab_name (lhs_col (emptied (col_cond ''a'' ''x'' OP_EQ ''b'' ''y''))) = []
   \<and> \<not> joins_normalized
         (JoinPlan T_SortMerge (ScanPlan T_SeqScan ''a'' [] []) (ScanPlan T_SeqScan ''b'' [] [])
            [col_cond ''a'' ''x'' OP_EQ ''b'' ''y'', emptied (col_cond ''a'' ''x'' OP_EQ ''b'' ''y'')])"
  by (simp add: ab_plan) (simp add: emptied_def col_cond_def)

lemma s5_scans:
  "build_scans emptied s5_db (tables s5_query) (Query.conds s5_query) =
     Inr ([ScanPlan T_SeqScan ''item'' [] [], ScanPlan T_SeqScan ''stock'' [] []],
          [col_cond ''stock'' ''s_i_id'' OP_EQ ''item'' ''i_id''])"
  by code_simp

lemma s5_first_join:
  "first_join emptied True False s5_db
      [ScanPlan T_SeqScan ''item'' [] [], ScanPlan T_SeqScan ''stock'' [] []]
      (col_cond ''stock'' ''s_i_id'' OP_EQ ''item'' ''i_id'') [- 1, - 1] [[], []] =
     Inr ([1, 1], [[], [], ''stock'', ''item''],
          JoinPlan T_NestLoop (ScanPlan T_SeqScan ''item'' [] []) (ScanPlan T_SeqScan ''stock'' [] [])
            [col_cond ''item'' ''i_id'' OP_EQ ''stock'' ''s_i_id''])"
  by code_simp

lemma s5_len: "2 \<le> length (tables s5_query)"
  by (simp add: s5_query_def select_query_def)

text \<open>
  Claim C6, as amended. In the first join of \<open>make_one_rel\<close>, the children and the sides
  of the condition are swapped exactly when the left column of the first condition is
  on the second table of the \<open>FROM\<close> list and its right column is on the first table.
  Then the first table is on the left, the second on the right, and the condition of the
  join, with its sides swapped, has its \<open>lhs_col\<close> on the first table. In every other case
  the condition is kept as it is and the children follow the condition, not the \<open>FROM\<close>
  list. When the nested-loop join is enabled, that condition is the only one of the join.
\<close>

theorem first_join_swaps_second_and_first_table:
  assumes "build_scans moved_from get_table tabs cnds0 = Inr (scans, rest)"
    and "2 \<le> length tabs"
    and "first_join moved_from nl sm get_table scans it scantbl joined = Inr (scantbl', joined', plan)"
  shows "\<exists>tag left right cs.
           plan = JoinPlan tag left right cs \<and>
           (if TabCol.tab_name (lhs_col it) = tabs ! 1 \<and> TabCol.tab_name (rhs_col it) = tabs ! 0
               \<and> tabs ! 0 \<noteq> tabs ! 1
            then swap_sides it \<in> set cs \<and> (nl \<longrightarrow> cs = [swap_sides it]) \<and>
                 tables_of left = {tabs ! 0} \<and> tables_of right = {tabs ! 1} \<and>
                 TabCol.tab_name (lhs_col (swap_sides it)) = tabs ! 0
            else it \<in> set cs \<and> (nl \<longrightarrow> cs = [it]) \<and>
                 (TabCol.tab_name (lhs_col it) \<in> set tabs \<longrightarrow>
                    tables_of left = {TabCol.tab_name (lhs_col it)}) \<and>
                 (TabCol.tab_name (rhs_col it) \<in> set tabs \<longrightarrow>
                    tables_of right = {TabCol.tab_name (rhs_col it)}))"
proof -
  from build_scans_spec[OF assms(1)] have scans: "map scan_tab scans = map Some tabs" by simp
  have t0: "tabs ! 0 \<in> set tabs" and t1: "tabs ! 1 \<in> set tabs"
    using assms(2) by (auto intro!: nth_mem)
  show ?thesis
  proof (cases "TabCol.tab_name (lhs_col it) = tabs ! 1 \<and> TabCol.tab_name (rhs_col it) = tabs ! 0
               \<and> tabs ! 0 \<noteq> tabs ! 1")
    case True
    with first_join_shape[OF scans assms(2,3)] t0 t1 obtain tag left right cs where
      "plan = JoinPlan tag left right cs" "swap_sides it \<in> set cs" "nl \<longrightarrow> cs = [swap_sides it]"
      "scan_tab left = Some (tabs ! 0)" "scan_tab right = Some (tabs ! 1)"
      by (auto simp: swap_sides_def)
    with True show ?thesis by (auto simp: scan_tab_tables_of swap_sides_def)
  next
    case False
    with first_join_shape[OF scans assms(2,3)] obtain tag left right cs where
      "plan = JoinPlan tag left right cs" "it \<in> set cs" "nl \<longrightarrow> cs = [it]"
      "TabCol.tab_name (lhs_col it) \<in> set tabs \<longrightarrow> scan_tab left = Some (TabCol.tab_name (lhs_col it))"
      "TabCol.tab_name (rhs_col it) \<in> set tabs \<longrightarrow> scan_tab right = Some (TabCol.tab_name (rhs_col it))"
      by auto
    with False show ?thesis by (auto simp: scan_tab_tables_of)
  qed
qed

theorem first_join_swaps_second_and_first_table_witness:
  "build_scans emptied s5_db (tables s5_query) (Query.conds s5_query) =
     Inr ([ScanPlan T_SeqScan ''item'' [] [], ScanPlan T_SeqScan ''stock'' [] []],
          [col_cond ''stock'' ''s_i_id'' OP_EQ ''item'' ''i_id'']) \<and>
   2 \<le> length (tables s5_query) \<and>
   first_join emptied True False s5_db
      [ScanPlan T_SeqScan ''item'' [] [], ScanPlan T_SeqScan ''stock'' [] []]
      (col_cond ''stock'' ''s_i_id'' OP_EQ ''item'' ''i_id'') [- 1, - 1] [[], []] =
     Inr ([1, 1], [[], [], ''stock'', ''item''],
          JoinPlan T_NestLoop (ScanPlan T_SeqScan ''item'' [] []) (ScanPlan T_SeqScan ''stock'' [] [])
            [col_cond ''item'' ''i_id'' OP_EQ ''stock'' ''s_i_id'']) \<and>
   TabCol.tab_name (lhs_col (swap_sides (col_cond ''stock'' ''s_i_id'' OP_EQ ''item'' ''i_id'')))
     = tables s5_query ! 0 \<and>
   make_one_rel emptied True False s5_db s5_query =
     Inr (JoinPlan T_NestLoop (ScanPlan T_SeqScan ''item'' [] []) (ScanPlan T_SeqScan ''stock'' [] [])
            [col_cond ''item'' ''i_id'' OP_EQ ''stock'' ''s_i_id''])"
proof -
  have m: "make_one_rel emptied True False s5_db s5_query =
     Inr (JoinPlan T_NestLoop (ScanPlan T_SeqScan ''item'' [] []) (ScanPlan T_SeqScan ''stock'' [] [])
            [col_cond ''item'' ''i_id'' OP_EQ ''stock'' ''s_i_id''])"
    by code_simp
  have c: "TabCol.tab_name (lhs_col (col_cond ''stock'' ''s_i_id'' OP_EQ ''item'' ''i_id'')) = tables s5_query ! 1
     \<and> TabCol.tab_name (rhs_col (col_cond ''stock'' ''s_i_id'' OP_EQ ''item'' ''i_id'')) = tables s5_query ! 0
     \<and> tables s5_query ! 0 \<noteq> tables s5_query ! 1"
    by (simp add: col_cond_def s5_query_def select_query_def)
  from first_join_swaps_second_and_first_table[OF s5_scans s5_len s5_first_join] c
  have "TabCol.tab_name (lhs_col (swap_sides (col_cond ''stock'' ''s_i_id'' OP_EQ ''item'' ''i_id'')))
     = tables s5_query ! 0" by auto
  with s5_scans s5_len s5_first_join m show ?thesis by blast
qed

theorem first_join_keeps_reverse_order_counterexample:
  "make_one_rel emptied True False plain_db abc_query =
     Inr (JoinPlan T_NestLoop (ScanPlan T_SeqScan ''a'' [] [])
            (JoinPlan T_NestLoop (ScanPlan T_SeqScan ''c'' [] []) (ScanPlan T_SeqScan ''b'' [] [])
               [col_cond ''c'' ''x'' OP_EQ ''b'' ''y''])
            [])
   \<and> tables abc_query = [''a'', ''b'', ''c'']"
  by code_simp

text \<open>
  Claim C8, as amended. \<open>generate_sort_plan\<close> looks the \<open>ORDER BY\<close> column name up in
  the schemas of all selected tables (tables in \<open>FROM\<close> order, columns in schema order)
  and reports no error: the sort column is the last column with that name, and the
  empty column when no column has that name.
\<close>

theorem generate_sort_plan_last_match:
  assumes "parse q = SelectStmt True order_col dir"
  shows "generate_sort_plan get_table q plan =
           Inr (SortPlan T_Sort plan
                  (case find (\<lambda>c. ColMeta.name c = order_col)
                             (rev (concat (map (\<lambda>t. TabMeta.cols (get_table t)) (tables q)))) of
                     None \<Rightarrow> \<lparr>TabCol.tab_name = [], col_name = []\<rparr>
                   | Some c \<Rightarrow> \<lparr>TabCol.tab_name = ColMeta.tab_name c, col_name = ColMeta.name c\<rparr>)
                  (dir = OrderBy_DESC))"
  using assms by (simp add: generate_sort_plan_def fold_last_match)

theorem generate_sort_plan_last_match_witness:
  "parse order_by_a_query = SelectStmt True ''a'' OrderBy_DEFAULT \<and>
   generate_sort_plan rs_db order_by_a_query NullPlan =
     Inr (SortPlan T_Sort NullPlan \<lparr>TabCol.tab_name = ''s'', col_name = ''a''\<rparr> False)"
proof -
  have p: "parse order_by_a_query = SelectStmt True ''a'' OrderBy_DEFAULT"
    by (simp add: order_by_a_query_def select_query_def)
  from generate_sort_plan_last_match[OF p, of rs_db NullPlan] p show ?thesis
    by (simp add: order_by_a_query_def select_query_def rs_db_def mk_col_def)
qed

theorem generate_sort_plan_no_error_counterexample:
  "generate_sort_plan rs_db order_by_a_query (ScanPlan T_SeqScan ''r'' [] []) =
     Inr (SortPlan T_Sort (ScanPlan T_SeqScan ''r'' [] [])
            \<lparr>TabCol.tab_name = ''s'', col_name = ''a''\<rparr> False)
   \<and> generate_sort_plan rs_db order_by_z_query (ScanPlan T_SeqScan ''r'' [] []) =
     Inr (SortPlan T_Sort (ScanPlan T_SeqScan ''r'' [] [])
            \<lparr>TabCol.tab_name = [], col_name = []\<rparr> False)"
  by (simp add: generate_sort_plan_def order_by_a_query_def order_by_z_query_def select_query_def
        rs_db_def mk_col_def)
section \<open>External merge sorter: the write phase\<close>

lemma sorts_byD:
  "sorts_by cmp qs \<Longrightarrow> mset (qs xs) = mset xs"
  "sorts_by cmp qs \<Longrightarrow> sorted_wrt (\<lambda>a b. cmp a b \<le> 0) (qs xs)"
  by (simp_all add: sorts_by_def)

lemma sorts_by_nonempty: "sorts_by cmp qs \<Longrightarrow> xs \<noteq> [] \<Longrightarrow> qs xs \<noteq> []"
  by (metis sorts_byD(1) mset_zero_iff)

lemma sorts_by_length: "sorts_by cmp qs \<Longrightarrow> length (qs xs) = length xs"
  by (metis sorts_byD(1) size_mset)

lemma mset_concat_butlast_last:
  "fs \<noteq> [] \<Longrightarrow> mset (concat fs) = mset (concat (butlast fs)) + mset (last fs)"
  by (metis append_butlast_last_id concat_append concat.simps(2) concat.simps(1) append_Nil2 mset_append)

lemma write_inv_new: "write_inv cmp n (new_sorter n) []"
  by (simp add: write_inv_def new_sorter_def)

lemma write_step:
  assumes qs: "sorts_by cmp qs" and n: "0 < n" and inv: "write_inv cmp n s xs"
  shows "\<exists>s'. write_record qs s r = Inr s' \<and> write_inv cmp n s' (xs @ [r])"
proof (cases "isFull s")
  case False
  with inv have xs: "xs \<noteq> []" by (auto simp: write_inv_def split: if_splits)
  with inv have I: "NUM_RECORD_PER_FILE s = n" "opened_files s = []" "record_list s = []" "heap s = []"
    "mset (concat (files s)) = mset xs" "data s" "files s \<noteq> []" "last (files s) \<noteq> []"
    "index s = int (length (last (files s)))" "index s \<le> n" "isFull s \<longleftrightarrow> index s = n"
    "\<forall>f\<in>set (butlast (files s)). f \<noteq> [] \<and> sorted_wrt (\<lambda>a b. cmp a b \<le> 0) f"
    by (simp_all add: write_inv_def)
  define s' where "s' = (on_mapped (\<lambda>region. take (nat (index s)) region @ [r]) s)
                      \<lparr>index := index s + 1,
                       isFull := (isFull s \<or> index s + 1 = NUM_RECORD_PER_FILE s)\<rparr>"
  have w: "write_record qs s r = Inr s'" using False I by (simp add: write_record_def s'_def)
  have f': "files s' = butlast (files s) @ [last (files s) @ [r]]"
    using I by (simp add: s'_def on_mapped_def)
  have m: "mset (concat (files s')) = mset (xs @ [r])"
    unfolding f' using I(5) mset_concat_butlast_last[OF I(7)] by simp
  have ix: "index s' = index s + 1" by (simp add: s'_def on_mapped_def)
  have fl: "isFull s' = (index s + 1 = n)" using False I by (simp add: s'_def on_mapped_def)
  have oth: "NUM_RECORD_PER_FILE s' = n" "opened_files s' = []" "record_list s' = []" "heap s' = []"
    "data s'" using I by (simp_all add: s'_def on_mapped_def)
  have la: "last (files s') = last (files s) @ [r]" "butlast (files s') = butlast (files s)"
    "files s' \<noteq> []" by (simp_all add: f')
  have le: "index s + 1 \<le> n" using I False by simp
  have "write_inv cmp n s' (xs @ [r])"
    unfolding write_inv_def using m oth la ix fl le I(9,12) by simp
  with w show ?thesis by blast
next
  case True
  define s1 where "s1 = (if data s then on_mapped (qsort_r qs (NUM_RECORD_PER_FILE s)) s else s)"
  define s2 where "s2 = s1\<lparr>files := files s1 @ [[]], data := True, isFull := False, index := 0\<rparr>"
  define s' where "s' = (on_mapped (\<lambda>region. take (nat (index s2)) region @ [r]) s2)
                      \<lparr>index := index s2 + 1,
                       isFull := (isFull s2 \<or> index s2 + 1 = NUM_RECORD_PER_FILE s2)\<rparr>"
  from inv have N: "NUM_RECORD_PER_FILE s = n" by (simp add: write_inv_def)
  have N1: "NUM_RECORD_PER_FILE s1 = n" using N by (simp add: s1_def on_mapped_def)
  have w: "write_record qs s r = Inr s'"
    using True N n by (simp add: write_record_def Let_def s'_def s2_def s1_def)
  have f': "files s' = files s1 @ [[r]]"
    by (simp add: s'_def s2_def on_mapped_def)
  have f1: "mset (concat (files s1)) = mset xs \<and>
            (\<forall>f\<in>set (files s1). f \<noteq> [] \<and> sorted_wrt (\<lambda>a b. cmp a b \<le> 0) f)"
  proof (cases "xs = []")
    case True
    with inv show ?thesis by (simp add: write_inv_def s1_def)
  next
    case False
    with inv have I: "mset (concat (files s)) = mset xs" "data s" "files s \<noteq> []" "last (files s) \<noteq> []"
      "index s = int (length (last (files s)))" "index s = n"
      "\<forall>f\<in>set (butlast (files s)). f \<noteq> [] \<and> sorted_wrt (\<lambda>a b. cmp a b \<le> 0) f"
      using True by (simp_all add: write_inv_def)
    have q: "qsort_r qs (NUM_RECORD_PER_FILE s) (last (files s)) = qs (last (files s))"
      using I N by (simp add: qsort_r_def)
    have fs1: "files s1 = butlast (files s) @ [qs (last (files s))]"
      using I by (simp add: s1_def on_mapped_def q)
    show ?thesis
      unfolding fs1 using I(1,4,7) mset_concat_butlast_last[OF I(3)] sorts_byD[OF qs] sorts_by_nonempty[OF qs]
      by auto
  qed
  from inv have O: "opened_files s = []" "record_list s = []" "heap s = []"
    by (simp_all add: write_inv_def)
  have oth: "NUM_RECORD_PER_FILE s' = n" "opened_files s' = []" "record_list s' = []" "heap s' = []"
    "data s'" "index s' = 1" "isFull s' = (1 = n)"
    using N O by (simp_all add: s'_def s2_def on_mapped_def s1_def)
  have la: "last (files s') = [r]" "butlast (files s') = files s1" "files s' \<noteq> []"
    by (simp_all add: f')
  have m: "mset (concat (files s')) = mset (xs @ [r])" using f1 by (simp add: f')
  have le: "1 \<le> n" using n by simp
  have "write_inv cmp n s' (xs @ [r])"
    unfolding write_inv_def using m oth la le f1 by simp
  with w show ?thesis by blast
qed

lemma write_all_inv:
  assumes qs: "sorts_by cmp qs" and n: "0 < n"
  shows "write_inv cmp n s xs \<Longrightarrow> \<exists>s'. write_all qs s rs = Inr s' \<and> write_inv cmp n s' (xs @ rs)"
proof (induction rs arbitrary: s xs)
  case Nil
  then show ?case by simp
next
  case (Cons r rs)
  from write_step[OF qs n Cons.prems, of r] obtain s1 where
    w: "write_record qs s r = Inr s1" and i: "write_inv cmp n s1 (xs @ [r])" by blast
  from Cons.IH[OF i] w show ?case by simp
qed

lemma endWrite_files:
  assumes qs: "sorts_by cmp qs" and inv: "write_inv cmp n s xs" and xs: "xs \<noteq> []"
  shows "mset (concat (files (endWrite qs s))) = mset xs"
    and "\<forall>f\<in>set (files (endWrite qs s)). f \<noteq> [] \<and> sorted_wrt (\<lambda>a b. cmp a b \<le> 0) f"
    and "files (endWrite qs s) \<noteq> []"
    and "opened_files (endWrite qs s) = []" "record_list (endWrite qs s) = []" "heap (endWrite qs s) = []"
proof -
  from inv xs have I: "mset (concat (files s)) = mset xs" "data s" "files s \<noteq> []" "last (files s) \<noteq> []"
      "index s = int (length (last (files s)))" 
      "\<forall>f\<in>set (butlast (files s)). f \<noteq> [] \<and> sorted_wrt (\<lambda>a b. cmp a b \<le> 0) f"
      "opened_files s = []" "record_list s = []" "heap s = []"
    by (simp_all add: write_inv_def)
  have "qsort_r qs (index s) (last (files s)) = qs (last (files s))"
    using I(5) by (simp add: qsort_r_def)
  moreover have "length (qs (last (files s))) = nat (index s)"
    using I(5) sorts_by_length[OF qs, of "last (files s)"] by simp
  ultimately have q: "take (nat (index s)) (qsort_r qs (index s) (last (files s))) = qs (last (files s))"
    by simp
  have fs: "files (endWrite qs s) = butlast (files s) @ [qs (last (files s))]"
    using I(2,3) by (simp add: endWrite_def on_mapped_def q)
  show "mset (concat (files (endWrite qs s))) = mset xs"
    unfolding fs using I(1) mset_concat_butlast_last[OF I(3)] sorts_byD[OF qs] by simp
  show "\<forall>f\<in>set (files (endWrite qs s)). f \<noteq> [] \<and> sorted_wrt (\<lambda>a b. cmp a b \<le> 0) f"
    unfolding fs using I(4,6) sorts_byD[OF qs] sorts_by_nonempty[OF qs] by auto
  show "files (endWrite qs s) \<noteq> []" unfolding fs by simp
  show "opened_files (endWrite qs s) = []" "record_list (endWrite qs s) = []" "heap (endWrite qs s) = []"
    using I by (simp_all add: endWrite_def on_mapped_def)
qed

section \<open>External merge sorter: building the loser tree\<close>

lemma open_files_nonempty:
  "\<forall>f\<in>set fs. f \<noteq> [] \<Longrightarrow> open_files fs = Inr (map hd fs, map tl fs)"
proof (induction fs)
  case Nil
  show ?case by simp
next
  case (Cons f fs)
  then obtain r rest where f: "f = r # rest" by (cases f) auto
  from Cons show ?case by (simp add: f)
qed

lemma ceil_log2_bound: "k \<le> 2 ^ ceil_log2 k"
proof (induction k rule: ceil_log2.induct)
  case (1 k)
  show ?case
  proof (cases "k \<le> 1")
    case True
    then have "ceil_log2 k = 0" by (subst ceil_log2.simps) simp
    with True show ?thesis by simp
  next
    case False
    with 1 have "(k + 1) div 2 \<le> 2 ^ ceil_log2 ((k + 1) div 2)" by simp
    then have "k \<le> 2 * 2 ^ ceil_log2 ((k + 1) div 2)" by linarith
    with False show ?thesis by (subst ceil_log2.simps) simp
  qed
qed

lemma ceil_log2_least: "1 < k \<Longrightarrow> 2 ^ (ceil_log2 k - 1) < k"
proof (induction k rule: ceil_log2.induct)
  case (1 k)
  show ?case
  proof (cases "1 < (k + 1) div 2")
    case True
    with 1 have IH: "2 ^ (ceil_log2 ((k + 1) div 2) - 1) < (k + 1) div 2" by simp
    from True have p: "0 < ceil_log2 ((k + 1) div 2)" by (subst ceil_log2.simps) simp
    have "ceil_log2 k = Suc (ceil_log2 ((k + 1) div 2))" using "1.prems" by (subst ceil_log2.simps) simp
    then have "(2::nat) ^ (ceil_log2 k - 1) = 2 * 2 ^ (ceil_log2 ((k + 1) div 2) - 1)"
      using p by (cases "ceil_log2 ((k + 1) div 2)") simp_all
    with IH show ?thesis by linarith
  next
    case False
    then have k2: "(k + 1) div 2 \<le> 1" by simp
    have "ceil_log2 k = Suc (ceil_log2 ((k + 1) div 2))" using "1.prems" by (subst ceil_log2.simps) simp
    moreover have "ceil_log2 ((k + 1) div 2) = 0" using k2 by (subst ceil_log2.simps) simp
    ultimately show ?thesis using "1.prems" by simp
  qed
qed

lemma fold_update_length [simp]:
  "length (fold (\<lambda>i v. v[b + i := f i]) xs v) = length v"
  by (induction xs arbitrary: v) simp_all

lemma fold_update_nth:
  "fold (\<lambda>i v. v[b + i := f i]) [m..<n] v ! p =
     (if b + m \<le> p \<and> p < b + n \<and> p < length v then f (p - b) else v ! p)"
proof (induction n)
  case 0
  show ?case by auto
next
  case (Suc n)
  show ?case
  proof (cases "m \<le> n")
    case True
    let ?w = "fold (\<lambda>i v. v[b + i := f i]) [m..<n] v"
    have st: "fold (\<lambda>i v. v[b + i := f i]) [m..<Suc n] v = ?w[b + n := f n]"
      using True by simp
    show ?thesis
    proof (cases "p = b + n")
      case pe: True
      show ?thesis
      proof (cases "p < length v")
        case True
        with pe \<open>m \<le> n\<close> show ?thesis unfolding st by simp
      next
        case False
        then have "?w[b + n := f n] = ?w" using pe by (simp add: list_update_beyond)
        with Suc False pe show ?thesis unfolding st by simp
      qed
    next
      case False
      then have "?w[b + n := f n] ! p = ?w ! p" by simp
      with Suc False show ?thesis unfolding st by auto
    qed
  next
    case False
    then show ?thesis by auto
  qed
qed

lemma set_leaves_length [simp]: "length (set_leaves h k v) = length v"
  by (simp add: set_leaves_def)

lemma set_leaves_nth:
  assumes "k \<le> 2 ^ h" "length v = 2 ^ (h + 1)"
  shows "set_leaves h k v ! p =
           (if 2 ^ h \<le> p \<and> p < 2 ^ (h + 1) then (if p - 2 ^ h < k then int (p - 2 ^ h) else - 1)
            else v ! p)"
  using assms unfolding set_leaves_def
  by (simp add: fold_update_nth) (auto)

lemma anc_refl: "anc p p"
  unfolding anc_def by (rule exI[of _ 0]) simp

lemma anc_parent: "anc c q \<Longrightarrow> anc (c div 2) q"
proof -
  assume "anc c q"
  then obtain n where "q div 2 ^ n = c" unfolding anc_def by blast
  moreover have "q div 2 ^ Suc n = q div 2 ^ n div 2"
    unfolding power_Suc2 by (rule div_mult2_eq)
  ultimately have "q div 2 ^ Suc n = c div 2" by simp
  then show ?thesis unfolding anc_def by blast
qed

lemma beats_total:
  assumes "total_order_cmp cmp" "\<not> beats cmp recs a b"
  shows "beats cmp recs b a"
proof -
  from assms(2) have b: "b \<noteq> - 1" and c: "a = - 1 \<or> \<not> cmp (recs ! nat a) (recs ! nat b) \<le> 0"
    by (auto simp: beats_def)
  from assms(1) have "cmp (recs ! nat a) (recs ! nat b) \<le> 0 \<or> cmp (recs ! nat b) (recs ! nat a) \<le> 0"
    unfolding total_order_cmp_def by blast
  with b c show ?thesis unfolding beats_def by blast
qed

lemma beats_refl: "total_order_cmp cmp \<Longrightarrow> beats cmp recs a a"
  using beats_total by blast

lemma beats_trans:
  assumes "total_order_cmp cmp" "beats cmp recs a b" "beats cmp recs b c"
  shows "beats cmp recs a c"
proof (cases "c = - 1")
  case True
  then show ?thesis by (simp add: beats_def)
next
  case False
  with assms(3) have b: "b \<noteq> - 1" and bc: "cmp (recs ! nat b) (recs ! nat c) \<le> 0"
    by (auto simp: beats_def)
  with assms(2) have a: "a \<noteq> - 1" and ab: "cmp (recs ! nat a) (recs ! nat b) \<le> 0"
    by (auto simp: beats_def)
  from assms(1) ab bc have "cmp (recs ! nat a) (recs ! nat c) \<le> 0"
    unfolding total_order_cmp_def by blast
  with a show ?thesis by (simp add: beats_def)
qed

text \<open>
  The test of the source's matches, in terms of \<open>beats\<close>.
\<close>

lemma source_test_beats:
  "(a \<noteq> - 1 \<and> (b = - 1 \<or> cmp (recs ! nat a) (recs ! nat b) \<le> 0)) \<Longrightarrow> beats cmp recs a b"
  by (auto simp: beats_def)

lemma source_test_not_beats:
  assumes "total_order_cmp cmp"
    and "\<not> (a \<noteq> - 1 \<and> (b = - 1 \<or> cmp (recs ! nat a) (recs ! nat b) \<le> 0))"
  shows "beats cmp recs b a"
proof (cases "a = - 1")
  case True
  then show ?thesis by (simp add: beats_def)
next
  case False
  with assms(2) have "\<not> beats cmp recs a b" by (auto simp: beats_def)
  from beats_total[OF assms(1) this] show ?thesis .
qed

lemma build_step_inv:
  assumes tot: "total_order_cmp cmp"
    and inv: "build_inv cmp recs h k (Suc i) hw" and i: "Suc i < 2 ^ h"
  shows "build_inv cmp recs h k i (build_step cmp recs (Suc i) hw)"
proof -
  obtain hp w where hw: "hw = (hp, w)" by (cases hw)
  let ?p = "Suc i"
  from inv hw have L: "length hp = 2 ^ (h + 1)" "length w = 2 ^ (h + 1)"
    and leaf: "\<And>p. 2 ^ h \<le> p \<Longrightarrow> p < 2 ^ (h + 1) \<Longrightarrow> leaf_ok h k hp ((!) w) p"
    and inner: "\<And>p. ?p < p \<Longrightarrow> p < 2 ^ h \<Longrightarrow> inner_ok cmp recs hp ((!) w) p"
    and src: "\<And>p. ?p < p \<Longrightarrow> p < 2 ^ (h + 1) \<Longrightarrow> src_ok h k hp ((!) w) p"
    by (simp_all add: build_inv_def)
  have r: "2 * ?p + 1 < 2 ^ (h + 1)" "2 * ?p < 2 ^ (h + 1)" using i by simp_all
  have pl: "?p < length hp" "?p < length w" using i L by simp_all
  define a where "a = w ! (2 * ?p)"
  define b where "b = w ! (2 * ?p + 1)"
  define test where "test = (a \<noteq> - 1 \<and> (b = - 1 \<or> cmp (recs ! nat a) (recs ! nat b) \<le> 0))"
  define win where "win = (if test then a else b)"
  define los where "los = (if test then b else a)"
  have bs: "build_step cmp recs ?p hw = (hp[?p := los], w[?p := win])"
    by (simp add: build_step_def hw win_def los_def test_def a_def b_def)
  have pair: "(win = w ! (2 * ?p) \<and> los = w ! (2 * ?p + 1)) \<or> (win = w ! (2 * ?p + 1) \<and> los = w ! (2 * ?p))"
    unfolding win_def los_def a_def b_def by (cases test) simp_all
  have bt: "beats cmp recs win los"
  proof (cases test)
    case True
    then have "beats cmp recs a b" unfolding test_def by (rule source_test_beats)
    with True show ?thesis by (simp add: win_def los_def)
  next
    case False
    then have "beats cmp recs b a" unfolding test_def by (rule source_test_not_beats[OF tot])
    with False show ?thesis by (simp add: win_def los_def)
  qed
  have hp_other: "\<And>q. q \<noteq> ?p \<Longrightarrow> hp[?p := los] ! q = hp ! q" by simp
  have w_other: "\<And>q. q \<noteq> ?p \<Longrightarrow> w[?p := win] ! q = w ! q" by simp
  have hp_p: "hp[?p := los] ! ?p = los" using pl by simp
  have w_p: "w[?p := win] ! ?p = win" using pl by simp
  have leafpos: "\<And>j. hp[?p := los] ! (2 ^ h + j) = hp ! (2 ^ h + j)"
    using i by (intro hp_other) simp
  show ?thesis
    unfolding bs build_inv_def fst_conv snd_conv
  proof (intro conjI allI impI)
    show "length (hp[?p := los]) = 2 ^ (h + 1)" using L by simp
    show "length (w[?p := win]) = 2 ^ (h + 1)" using L by simp
  next
    fix p :: nat assume "2 ^ h \<le> p \<and> p < 2 ^ (h + 1)"
    then have p: "2 ^ h \<le> p" "p < 2 ^ (h + 1)" by simp_all
    with i have ne: "p \<noteq> ?p" by simp
    from leaf[OF p] show "leaf_ok h k (hp[?p := los]) ((!) (w[?p := win])) p"
      by (simp add: leaf_ok_def hp_other[OF ne] w_other[OF ne])
  next
    fix p :: nat assume "i < p \<and> p < 2 ^ h"
    then have p: "i < p" "p < 2 ^ h" by simp_all
    show "inner_ok cmp recs (hp[?p := los]) ((!) (w[?p := win])) p"
    proof (cases "p = ?p")
      case True
      have ch: "w[?p := win] ! (2 * ?p) = w ! (2 * ?p)" "w[?p := win] ! (2 * ?p + 1) = w ! (2 * ?p + 1)"
        by (simp_all)
      from pair bt show ?thesis
        unfolding True inner_ok_def hp_p w_p ch by blast
    next
      case False
      with p have gt: "?p < p" by simp
      then have ne: "p \<noteq> ?p" "2 * p \<noteq> ?p" "2 * p + 1 \<noteq> ?p" by simp_all
      from inner[OF gt p(2)] show ?thesis
        unfolding inner_ok_def hp_other[OF ne(1)] w_other[OF ne(1)] w_other[OF ne(2)] w_other[OF ne(3)] .
    qed
  next
    fix p :: nat assume "i < p \<and> p < 2 ^ (h + 1)"
    then have p: "i < p" "p < 2 ^ (h + 1)" by simp_all
    show "src_ok h k (hp[?p := los]) ((!) (w[?p := win])) p"
    proof (cases "p = ?p")
      case True
      from pair obtain c where c: "c = 2 * ?p \<or> c = 2 * ?p + 1" and wc: "win = w ! c" by auto
      from c r have cr: "?p < c" "c < 2 ^ (h + 1)" by auto
      from c have cd: "c div 2 = ?p" by auto
      from src[OF cr] have "win = - 1 \<or>
         (0 \<le> win \<and> nat win < k \<and> hp ! (2 ^ h + nat win) = win \<and> anc c (2 ^ h + nat win))"
        unfolding src_ok_def wc .
      moreover have "\<And>q. anc c q \<Longrightarrow> anc ?p q" using anc_parent[of c] cd by simp
      ultimately have "win = - 1 \<or>
         (0 \<le> win \<and> nat win < k \<and> hp ! (2 ^ h + nat win) = win \<and> anc ?p (2 ^ h + nat win))"
        by blast
      then show ?thesis
        unfolding True src_ok_def w_p leafpos .
    next
      case False
      with p have gt: "?p < p" by simp
      then have ne: "p \<noteq> ?p" by simp
      from src[OF gt p(2)] show ?thesis
        by (simp add: src_ok_def w_other[OF ne] leafpos)
    qed
  qed
qed

lemma build_loop_inv:
  assumes tot: "total_order_cmp cmp"
  shows "build_inv cmp recs h k i hw \<Longrightarrow> i < 2 ^ h \<Longrightarrow> build_inv cmp recs h k 0 (build_loop cmp recs i hw)"
proof (induction i arbitrary: hw)
  case 0
  then show ?case by simp
next
  case (Suc i)
  from build_step_inv[OF tot Suc.prems] have "build_inv cmp recs h k i (build_step cmp recs (Suc i) hw)" .
  from Suc.IH[OF this] Suc.prems(2) show ?case by simp
qed

lemma build_step_above:
  "i < p \<Longrightarrow> fst (build_step cmp recs i hw) ! p = fst hw ! p"
  by (cases hw) (simp add: build_step_def)

lemma build_loop_above:
  "i < p \<Longrightarrow> fst (build_loop cmp recs i hw) ! p = fst hw ! p"
proof (induction i arbitrary: hw)
  case 0
  then show ?case by simp
next
  case (Suc i)
  then show ?case by (simp add: build_step_above)
qed

lemma sum_mset_nth: "(\<Sum>i<length fs. mset (fs ! i)) = mset (concat fs)"
proof (induction fs rule: rev_induct)
  case Nil
  show ?case by simp
next
  case (snoc f fs)
  have "(\<Sum>i<length fs. mset ((fs @ [f]) ! i)) = (\<Sum>i<length fs. mset (fs ! i))"
    by (intro sum.cong) (simp_all add: nth_append)
  with snoc show ?case by (simp add: nth_append)
qed

lemma tree_inv_update0:
  assumes "build_inv cmp recs h k 0 (hp, w)" "k \<le> 2 ^ h" "length recs = k"
  shows "tree_inv cmp recs h k (hp[0 := w ! 1]) ((!) w)"
proof -
  from assms(1) have L: "length hp = 2 ^ (h + 1)"
    and leaf: "\<And>p. 2 ^ h \<le> p \<Longrightarrow> p < 2 ^ (h + 1) \<Longrightarrow> leaf_ok h k hp ((!) w) p"
    and inner: "\<And>p. 0 < p \<Longrightarrow> p < 2 ^ h \<Longrightarrow> inner_ok cmp recs hp ((!) w) p"
    and src: "\<And>p. 0 < p \<Longrightarrow> p < 2 ^ (h + 1) \<Longrightarrow> src_ok h k hp ((!) w) p"
    by (simp_all add: build_inv_def)
  have o: "\<And>q. 0 < q \<Longrightarrow> hp[0 := w ! 1] ! q = hp ! q" by simp
  have lp: "\<And>j. hp[0 := w ! 1] ! (2 ^ h + j) = hp ! (2 ^ h + j)" by (intro o) simp
  have z: "hp[0 := w ! 1] ! 0 = w ! 1" using L by simp
  show ?thesis
    unfolding tree_inv_def
  proof (intro conjI allI impI)
    show "length (hp[0 := w ! 1]) = 2 ^ (h + 1)" using L by simp
    show "k \<le> 2 ^ h" by fact
    show "length recs = k" by fact
    show "hp[0 := w ! 1] ! 0 = w ! 1" by (rule z)
  next
    fix p :: nat assume "2 ^ h \<le> p \<and> p < 2 ^ (h + 1)"
    then have p: "2 ^ h \<le> p" "p < 2 ^ (h + 1)" by simp_all
    then have "0 < p" by (metis less_le_trans zero_less_numeral zero_less_power)
    from leaf[OF p] show "leaf_ok h k (hp[0 := w ! 1]) ((!) w) p"
      unfolding leaf_ok_def o[OF \<open>0 < p\<close>] .
  next
    fix p :: nat assume "1 \<le> p \<and> p < 2 ^ h"
    then have p: "0 < p" "p < 2 ^ h" by simp_all
    from inner[OF p] show "inner_ok cmp recs (hp[0 := w ! 1]) ((!) w) p"
      unfolding inner_ok_def o[OF p(1)] .
  next
    fix p :: nat assume "1 \<le> p \<and> p < 2 ^ (h + 1)"
    then have p: "0 < p" "p < 2 ^ (h + 1)" by simp_all
    from src[OF p] show "src_ok h k (hp[0 := w ! 1]) ((!) w) p"
      unfolding src_ok_def lp .
  qed
qed

lemma build_inv_initial:
  assumes k: "k \<le> 2 ^ h" and lv: "length v = 2 ^ (h + 1)"
  shows "build_inv cmp recs h k (2 ^ h - 1)
           (set_leaves h k v, set_leaves h k (replicate (2 ^ (h + 1)) 0))"
proof -
  let ?hp = "set_leaves h k v" and ?w = "set_leaves h k (replicate (2 ^ (h + 1)) 0)"
  have lr: "length (replicate (2 ^ (h + 1)) (0::int)) = 2 ^ (h + 1)" by simp
  have leafv: "\<And>p. 2 ^ h \<le> p \<Longrightarrow> p < 2 ^ (h + 1) \<Longrightarrow>
      ?hp ! p = (if p - 2 ^ h < k then int (p - 2 ^ h) else - 1) \<and>
      ?w ! p = (if p - 2 ^ h < k then int (p - 2 ^ h) else - 1)"
    using set_leaves_nth[OF k lv] set_leaves_nth[OF k lr] by simp
  show ?thesis
    unfolding build_inv_def fst_conv snd_conv
  proof (intro conjI allI impI)
    show "length ?hp = 2 ^ (h + 1)" using lv by simp
    show "length ?w = 2 ^ (h + 1)" by simp
  next
    fix p :: nat assume "2 ^ h \<le> p \<and> p < 2 ^ (h + 1)"
    then have p: "2 ^ h \<le> p" "p < 2 ^ (h + 1)" by simp_all
    from leafv[OF p] show "leaf_ok h k ?hp ((!) ?w) p"
      unfolding leaf_ok_def by (cases "p - 2 ^ h < k") simp_all
  next
    fix p :: nat assume "2 ^ h - 1 < p \<and> p < 2 ^ h"
    then have False by linarith
    then show "inner_ok cmp recs ?hp ((!) ?w) p" ..
  next
    fix p :: nat assume "2 ^ h - 1 < p \<and> p < 2 ^ (h + 1)"
    then have p: "2 ^ h \<le> p" "p < 2 ^ (h + 1)" by linarith+
    show "src_ok h k ?hp ((!) ?w) p"
    proof (cases "p - 2 ^ h < k")
      case True
      define j where "j = p - 2 ^ h"
      have e: "p = 2 ^ h + j" using p by (simp add: j_def)
      from leafv[OF p] True have wj: "?w ! p = int j" and hj: "?hp ! p = int j" by (simp_all add: j_def)
      have "0 \<le> int j \<and> nat (int j) < k \<and> ?hp ! (2 ^ h + nat (int j)) = int j \<and>
            anc p (2 ^ h + nat (int j))"
        using True hj anc_refl[of p] unfolding nat_int e[symmetric] j_def[symmetric] by simp
      then show ?thesis unfolding src_ok_def wj by blast
    next
      case False
      with leafv[OF p] show ?thesis unfolding src_ok_def by simp
    qed
  qed
qed

lemma beginRead_inv:
  assumes tot: "total_order_cmp cmp"
    and fs: "\<forall>f\<in>set (files s). f \<noteq> [] \<and> sorted_wrt (\<lambda>a b. cmp a b \<le> 0) f"
    and ne: "files s \<noteq> []"
    and em: "opened_files s = []" "record_list s = []" "heap s = []"
  shows "\<exists>s'. beginRead cmp s = Inr s' \<and> read_inv cmp s' \<and> remaining s' = mset (concat (files s))"
proof -
  let ?k = "length (files s)" and ?h = "ceil_log2 (length (files s))"
  let ?firsts = "map hd (files s)" and ?rests = "map tl (files s)"
  have k1: "1 \<le> ?k" using ne by (cases "files s") simp_all
  have kh: "?k \<le> 2 ^ ?h" by (rule ceil_log2_bound)
  from fs have op: "open_files (files s) = Inr (?firsts, ?rests)" by (intro open_files_nonempty) simp
  have hk: "height_of ?k = Inr ?h" using ne by (simp add: height_of_def)
  have rs: "resize (2 ^ (?h + 1)) (heap s) = replicate (2 ^ (?h + 1)) 0" by (simp add: resize_def em)
  let ?v = "replicate (2 ^ (?h + 1)) (0::int)"
  let ?hw0 = "(set_leaves ?h ?k ?v, set_leaves ?h ?k ?v)"
  obtain hp w where bl: "build_loop cmp ?firsts (2 ^ ?h - 1) ?hw0 = (hp, w)"
    by (cases "build_loop cmp ?firsts (2 ^ ?h - 1) ?hw0")
  define s' where "s' = s\<lparr>opened_files := ?rests, record_list := ?firsts, heap := hp[0 := w ! 1]\<rparr>"
  have br: "beginRead cmp s = Inr s'"
    unfolding beginRead_def op sum.case prod.case hk rs em(1,2) append_Nil bl s'_def ..
  have bi: "build_inv cmp ?firsts ?h ?k (2 ^ ?h - 1) ?hw0"
    by (rule build_inv_initial[OF kh]) simp
  have lt: "2 ^ ?h - 1 < (2::nat) ^ ?h" by simp
  from build_loop_inv[OF tot bi lt] have "build_inv cmp ?firsts ?h ?k 0 (hp, w)" unfolding bl .
  from tree_inv_update0[OF this kh] have ti: "tree_inv cmp ?firsts ?h ?k (hp[0 := w ! 1]) ((!) w)" by simp
  have leaves: "\<And>i. i < ?k \<Longrightarrow> (hp[0 := w ! 1]) ! (2 ^ ?h + i) = int i"
  proof -
    fix i assume i: "i < ?k"
    have "hp[0 := w ! 1] ! (2 ^ ?h + i) = hp ! (2 ^ ?h + i)" by simp
    also have "\<dots> = fst ?hw0 ! (2 ^ ?h + i)"
    proof -
      have "2 ^ ?h - 1 < 2 ^ ?h + i" using lt by linarith
      from build_loop_above[OF this, of cmp ?firsts ?hw0] show ?thesis unfolding bl fst_conv .
    qed
    also have "\<dots> = int i"
      using set_leaves_nth[OF kh, of ?v "2 ^ ?h + i"] i kh by simp
    finally show "(hp[0 := w ! 1]) ! (2 ^ ?h + i) = int i" .
  qed
  have rr: "\<And>i. i < ?k \<Longrightarrow> run_rest s' i = files s ! i"
  proof -
    fix i assume i: "i < ?k"
    with fs have "files s ! i \<noteq> []" by simp
    then have "hd (files s ! i) # tl (files s ! i) = files s ! i" by simp
    with i leaves[OF i] show "run_rest s' i = files s ! i"
      by (simp add: run_rest_def s'_def)
  qed
  have "read_inv cmp s'"
    unfolding read_inv_def
  proof (intro conjI)
    show "1 \<le> length (files s')" using k1 by (simp add: s'_def)
    show "length (opened_files s') = length (files s')" by (simp add: s'_def)
    show "\<exists>W. tree_inv cmp (record_list s') (ceil_log2 (length (files s'))) (length (files s')) (heap s') W"
      using ti by (auto simp: s'_def)
    show "\<forall>i<length (files s'). sorted_wrt (\<lambda>a b. cmp a b \<le> 0) (run_rest s' i)"
    proof (intro allI impI)
      fix i assume "i < length (files s')"
      then have i: "i < ?k" by (simp add: s'_def)
      with fs have "sorted_wrt (\<lambda>a b. cmp a b \<le> 0) (files s ! i)" by simp
      with rr[OF i] show "sorted_wrt (\<lambda>a b. cmp a b \<le> 0) (run_rest s' i)" by simp
    qed
  qed
  moreover have "remaining s' = mset (concat (files s))"
  proof -
    have "remaining s' = (\<Sum>i<?k. mset (run_rest s' i))" by (simp add: remaining_def s'_def)
    also have "\<dots> = (\<Sum>i<?k. mset (files s ! i))" by (intro sum.cong) (simp_all add: rr)
    also have "\<dots> = mset (concat (files s))" by (rule sum_mset_nth)
    finally show ?thesis .
  qed
  ultimately show ?thesis using br by blast
qed

section \<open>External merge sorter: the way from a leaf to the root\<close>

lemma sib_facts:
  assumes "2 \<le> c"
  shows "sib c \<noteq> c" "sib c div 2 = c div 2" "1 \<le> sib c"
    "(2 * (c div 2) = c \<and> 2 * (c div 2) + 1 = sib c) \<or> (2 * (c div 2) = sib c \<and> 2 * (c div 2) + 1 = c)"
proof -
  show "sib c \<noteq> c" using assms by (auto simp: sib_def)
  show "sib c div 2 = c div 2" using assms unfolding sib_def by (cases "even c") (auto elim!: evenE oddE)
  show "1 \<le> sib c" using assms by (auto simp: sib_def)
  show "(2 * (c div 2) = c \<and> 2 * (c div 2) + 1 = sib c) \<or> (2 * (c div 2) = sib c \<and> 2 * (c div 2) + 1 = c)"
    using assms unfolding sib_def by (cases "even c") (auto elim!: evenE oddE)
qed

lemma sib_upper: "2 \<le> c \<Longrightarrow> c < 2 ^ (h + 1) \<Longrightarrow> sib c < 2 ^ (h + 1)"
proof -
  assume a: "2 \<le> c" "c < 2 ^ (h + 1)"
  show ?thesis
  proof (cases "even c")
    case True
    have "even ((2::nat) ^ (h + 1))" by simp
    with True a(2) have "c + 1 < 2 ^ (h + 1)"
      by (metis Suc_eq_plus1 Suc_lessI even_Suc)
    with True show ?thesis by (simp add: sib_def)
  next
    case False
    with a show ?thesis by (simp add: sib_def)
  qed
qed

lemma div_pow_Suc: "(q::nat) div 2 ^ Suc n = q div 2 ^ n div 2"
  unfolding power_Suc2 by (rule div_mult2_eq)

lemma div_pow_add: "(q::nat) div 2 ^ (m + d) = q div 2 ^ m div 2 ^ d"
  unfolding power_add by (rule div_mult2_eq)

lemma path_level:
  fixes q :: nat
  assumes "2 ^ h \<le> q" "q < 2 ^ (h + 1)" "n \<le> h"
  shows "2 ^ (h - n) \<le> q div 2 ^ n" "q div 2 ^ n < 2 ^ (h - n + 1)"
proof -
  have e: "(2::nat) ^ h = 2 ^ (h - n) * 2 ^ n" using assms(3) by (simp flip: power_add)
  have "(2::nat) ^ (h - n) = 2 ^ h div 2 ^ n" unfolding e by simp
  also have "\<dots> \<le> q div 2 ^ n" using assms(1) by (rule div_le_mono)
  finally show "2 ^ (h - n) \<le> q div 2 ^ n" .
  have "(2::nat) ^ (h - n + 1) * 2 ^ n = 2 ^ (h + 1)" using assms(3) by (simp flip: power_add)
  with assms(2) have "q < 2 ^ (h - n + 1) * 2 ^ n" by simp
  then show "q div 2 ^ n < 2 ^ (h - n + 1)" by (simp add: less_mult_imp_div_less)
qed

lemma path_root:
  fixes q :: nat
  assumes "2 ^ h \<le> q" "q < 2 ^ (h + 1)"
  shows "q div 2 ^ h = 1"
  using path_level[OF assms, of h] by simp

lemma path_ge2:
  fixes q :: nat
  assumes "2 ^ h \<le> q" "q < 2 ^ (h + 1)" "n < h"
  shows "2 \<le> q div 2 ^ n"
proof -
  from assms(3) have "n \<le> h" by simp
  from path_level(1)[OF assms(1,2) this] have "2 ^ (h - n) \<le> q div 2 ^ n" .
  moreover have "(2::nat) ^ 1 \<le> 2 ^ (h - n)" using assms(3) by (intro power_increasing) simp_all
  ultimately show ?thesis by simp
qed

lemma path_distinct:
  fixes q :: nat
  assumes "2 ^ h \<le> q" "q < 2 ^ (h + 1)" "m \<le> h" "j \<le> h" "q div 2 ^ m = q div 2 ^ j"
  shows "m = j"
proof (rule ccontr)
  assume ne: "m \<noteq> j"
  have aux: "\<And>a b. a < b \<Longrightarrow> b \<le> h \<Longrightarrow> q div 2 ^ b < q div 2 ^ a"
  proof -
    fix a b assume ab: "a < b" "b \<le> h"
    from path_level(2)[OF assms(1,2) ab(2)] have "q div 2 ^ b < 2 ^ (h - b + 1)" .
    also have "(2::nat) ^ (h - b + 1) \<le> 2 ^ (h - a)" using ab by (intro power_increasing) simp_all
    also have "\<dots> \<le> q div 2 ^ a" using path_level(1)[OF assms(1,2), of a] ab by simp
    finally show "q div 2 ^ b < q div 2 ^ a" .
  qed
  from ne have "m < j \<or> j < m" by auto
  with aux[of m j] aux[of j m] assms(3,4,5) show False by auto
qed

lemma anc_on_path:
  fixes q :: nat
  assumes "2 ^ h \<le> q" "q < 2 ^ (h + 1)" "anc p q" "1 \<le> p"
  shows "\<exists>m\<le>h. p = q div 2 ^ m"
proof -
  from assms(3) obtain m where m: "q div 2 ^ m = p" unfolding anc_def by blast
  have "m \<le> h"
  proof (rule ccontr)
    assume "\<not> m \<le> h"
    then have "h + 1 \<le> m" by simp
    then have "(2::nat) ^ (h + 1) \<le> 2 ^ m" by (intro power_increasing) simp_all
    with assms(2) have "q < 2 ^ m" by simp
    then have "q div 2 ^ m = 0" by simp
    with m assms(4) show False by simp
  qed
  with m show ?thesis by blast
qed

lemma sib_off_path:
  fixes q :: nat
  assumes q: "2 ^ h \<le> q" "q < 2 ^ (h + 1)" and n: "n < h" and j: "j \<le> h"
  shows "sib (q div 2 ^ n) \<noteq> q div 2 ^ j"
proof
  let ?c = "q div 2 ^ n"
  assume e: "sib ?c = q div 2 ^ j"
  from path_ge2[OF q n] have c2: "2 \<le> ?c" .
  note S = sib_facts[OF c2]
  have nh: "n \<le> h" using n by simp
  have lv: "2 ^ (h - n) \<le> ?c" "?c < 2 ^ (h - n + 1)" using path_level[OF q nh] by simp_all
  have ev: "even ((2::nat) ^ (h - n))" using n by simp
  have "2 ^ (h - n) \<le> sib ?c"
  proof (cases "even ?c")
    case True
    with lv show ?thesis by (simp add: sib_def)
  next
    case False
    with ev lv(1) have "2 ^ (h - n) \<noteq> ?c" by metis
    with lv(1) have "2 ^ (h - n) < ?c" by simp
    with False show ?thesis by (simp add: sib_def)
  qed
  moreover have "sib ?c < 2 ^ (h - n + 1)" using sib_upper[OF c2 lv(2)] .
  moreover have "2 ^ (h - j) \<le> q div 2 ^ j" "q div 2 ^ j < 2 ^ (h - j + 1)"
    using path_level[OF q j] by simp_all
  ultimately have a: "(2::nat) ^ (h - n) < 2 ^ (h - j + 1)" and b: "(2::nat) ^ (h - j) < 2 ^ (h - n + 1)"
    using e by simp_all
  from a have "h - n < h - j + 1" by (rule power_less_imp_less_exp[rotated]) simp
  moreover from b have "h - j < h - n + 1" by (rule power_less_imp_less_exp[rotated]) simp
  ultimately have "n = j" using n j by simp
  with e S(1) show False by simp
qed

section \<open>External merge sorter: replaying the matches\<close>

lemma path_inv_step:
  fixes q :: nat
  assumes tot: "total_order_cmp cmp"
    and q: "2 ^ h \<le> q" "q < 2 ^ (h + 1)"
    and lr: "length recs = k"
    and n: "n < h"
    and inv: "path_inv cmp recs h k q n w g V"
  defines "pp \<equiv> q div 2 ^ Suc n"
  defines "l \<equiv> g ! pp"
  defines "test \<equiv> (w \<noteq> - 1 \<and> (l = - 1 \<or> cmp (recs ! nat w) (recs ! nat l) \<le> 0))"
  shows "q div 2 ^ n \<noteq> 1" "q div 2 ^ n div 2 = pp" "pp < length g"
    "\<not> (w \<noteq> - 1 \<and> l \<noteq> - 1 \<and> \<not> (is_run recs w \<and> is_run recs l))"
    "path_inv cmp recs h k q (Suc n) (if test then w else l) (g[pp := (if test then l else w)])
        (V(pp := (if test then w else l)))"
    "\<forall>p. 2 ^ h \<le> p \<longrightarrow> g[pp := (if test then l else w)] ! p = g ! p"
proof -
  let ?c = "q div 2 ^ n"
  let ?s = "sib ?c"
  define w' where "w' = (if test then w else l)"
  define l' where "l' = (if test then l else w)"
  let ?g = "g[pp := l']" and ?V = "V(pp := w')"
  from inv have L: "length g = 2 ^ (h + 1)" and Vc: "V ?c = w"
    and leaf: "\<And>p. 2 ^ h \<le> p \<Longrightarrow> p < 2 ^ (h + 1) \<Longrightarrow> leaf_ok h k g V p"
    and inner: "\<And>p. 1 \<le> p \<Longrightarrow> p < 2 ^ h \<Longrightarrow> (\<forall>m. n < m \<and> m \<le> h \<longrightarrow> p \<noteq> q div 2 ^ m) \<Longrightarrow>
           inner_ok cmp recs g V p"
    and src: "\<And>p. 1 \<le> p \<Longrightarrow> p < 2 ^ (h + 1) \<Longrightarrow> (\<forall>m. n < m \<and> m \<le> h \<longrightarrow> p \<noteq> q div 2 ^ m) \<Longrightarrow>
           src_ok h k g V p"
    and stored: "\<And>m. n < m \<Longrightarrow> m \<le> h \<Longrightarrow> g ! (q div 2 ^ m) = V (sib (q div 2 ^ (m - 1)))"
    unfolding path_inv_def by blast+
  have nh: "n \<le> h" "Suc n \<le> h" using n by simp_all
  have c2: "2 \<le> ?c" by (rule path_ge2[OF q n])
  note S = sib_facts[OF c2]
  show c1: "?c \<noteq> 1" using c2 by simp
  show cd: "?c div 2 = pp" unfolding pp_def by (rule div_pow_Suc[symmetric])
  have pp_lv: "2 ^ (h - Suc n) \<le> pp" "pp < 2 ^ (h - Suc n + 1)"
    unfolding pp_def using path_level[OF q nh(2)] by simp_all
  have pp1: "1 \<le> pp" using pp_lv(1) by (metis One_nat_def Suc_leI less_le_trans zero_less_numeral zero_less_power)
  have "(2::nat) ^ (h - Suc n + 1) \<le> 2 ^ h" by (intro power_increasing) (use n in simp_all)
  with pp_lv(2) have pph: "pp < 2 ^ h" by simp
  then show ppl: "pp < length g" using L by simp
  have c_up: "?c < 2 ^ (h + 1)" using path_level(2)[OF q nh(1)]
    by (meson less_le_trans power_increasing diff_le_self add_le_mono1 one_le_numeral)
  have s_up: "?s < 2 ^ (h + 1)" by (rule sib_upper[OF c2 c_up])
  have c_off: "\<forall>m. n < m \<and> m \<le> h \<longrightarrow> ?c \<noteq> q div 2 ^ m"
    using path_distinct[OF q nh(1)] by (metis less_irrefl)
  have s_off: "\<forall>m. m \<le> h \<longrightarrow> ?s \<noteq> q div 2 ^ m"
    using sib_off_path[OF q n] by blast
  have src_c: "src_ok h k g V ?c" using src[of ?c] c2 c_up c_off by simp
  have src_s: "src_ok h k g V ?s" using src[of ?s] S(3) s_up s_off by simp
  have lV: "l = V ?s" unfolding l_def pp_def using stored[of "Suc n"] n by simp
  show "\<not> (w \<noteq> - 1 \<and> l \<noteq> - 1 \<and> \<not> (is_run recs w \<and> is_run recs l))"
    using src_c src_s unfolding src_ok_def Vc lV[symmetric] is_run_def lr by blast
  have pair: "(w' = w \<and> l' = l) \<or> (w' = l \<and> l' = w)" by (simp add: w'_def l'_def)
  have bt: "beats cmp recs w' l'"
  proof (cases test)
    case True
    then have "beats cmp recs w l" unfolding test_def by (rule source_test_beats)
    with True show ?thesis by (simp add: w'_def l'_def)
  next
    case False
    then have "beats cmp recs l w" unfolding test_def by (rule source_test_not_beats[OF tot])
    with False show ?thesis by (simp add: w'_def l'_def)
  qed
  have g_other: "\<And>p. p \<noteq> pp \<Longrightarrow> ?g ! p = g ! p" by simp
  have g_pp: "?g ! pp = l'" using ppl by simp
  have V_other: "\<And>p. p \<noteq> pp \<Longrightarrow> ?V p = V p" by simp
  have V_pp: "?V pp = w'" by simp
  have leafpos: "\<And>j. ?g ! (2 ^ h + j) = g ! (2 ^ h + j)" using pph by (intro g_other) simp
  have cs_ne: "?c \<noteq> pp" "?s \<noteq> pp"
    unfolding pp_def using c_off nh(2) s_off by blast+
  have kids: "(2 * pp = ?c \<and> 2 * pp + 1 = ?s) \<or> (2 * pp = ?s \<and> 2 * pp + 1 = ?c)"
    using S(4) unfolding cd .
  have src_pp: "src_ok h k ?g ?V pp"
  proof -
    have sd: "?s div 2 = pp" using S(2) cd by simp
    from src_c have "w = - 1 \<or> (0 \<le> w \<and> nat w < k \<and> g ! (2 ^ h + nat w) = w \<and> anc pp (2 ^ h + nat w))"
      unfolding src_ok_def Vc using anc_parent[of ?c] cd by auto
    moreover from src_s have "l = - 1 \<or> (0 \<le> l \<and> nat l < k \<and> g ! (2 ^ h + nat l) = l \<and> anc pp (2 ^ h + nat l))"
      unfolding src_ok_def lV[symmetric] using anc_parent[of ?s] sd by auto
    ultimately have "w' = - 1 \<or> (0 \<le> w' \<and> nat w' < k \<and> g ! (2 ^ h + nat w') = w' \<and> anc pp (2 ^ h + nat w'))"
      using pair by blast
    then show ?thesis unfolding src_ok_def V_pp leafpos .
  qed
  have inner_pp: "inner_ok cmp recs ?g ?V pp"
  proof -
    from kids have ne: "2 * pp \<noteq> pp" "2 * pp + 1 \<noteq> pp" using pp1 by simp_all
    have "(w' = V (2 * pp) \<and> l' = V (2 * pp + 1)) \<or> (w' = V (2 * pp + 1) \<and> l' = V (2 * pp))"
      using kids pair Vc lV by metis
    with bt show ?thesis unfolding inner_ok_def V_pp g_pp V_other[OF ne(1)] V_other[OF ne(2)] by blast
  qed
  have "path_inv cmp recs h k q (Suc n) w' ?g ?V"
    unfolding path_inv_def
  proof (intro conjI allI impI)
    show "length ?g = 2 ^ (h + 1)" using L by simp
    show "?V (q div 2 ^ Suc n) = w'" unfolding pp_def by simp
  next
    fix p :: nat assume "2 ^ h \<le> p \<and> p < 2 ^ (h + 1)"
    then have p: "2 ^ h \<le> p" "p < 2 ^ (h + 1)" by simp_all
    with pph have ne: "p \<noteq> pp" by simp
    from leaf[OF p] show "leaf_ok h k ?g ?V p"
      unfolding leaf_ok_def g_other[OF ne] V_other[OF ne] .
  next
    fix p :: nat assume a: "1 \<le> p \<and> p < 2 ^ h \<and> (\<forall>m. Suc n < m \<and> m \<le> h \<longrightarrow> p \<noteq> q div 2 ^ m)"
    show "inner_ok cmp recs ?g ?V p"
    proof (cases "p = pp")
      case True
      with inner_pp show ?thesis by simp
    next
      case False
      with a have off: "\<forall>m. n < m \<and> m \<le> h \<longrightarrow> p \<noteq> q div 2 ^ m"
        unfolding pp_def by (metis Suc_lessI)
      have kid_ne: "2 * p \<noteq> pp" "2 * p + 1 \<noteq> pp"
      proof -
        have "\<And>x. x div 2 = p \<Longrightarrow> x \<noteq> pp"
        proof
          fix x assume x: "x div 2 = p" "x = pp"
          then have "p = q div 2 ^ Suc n div 2" unfolding pp_def by blast
          then have pe: "p = q div 2 ^ Suc (Suc n)" unfolding div_pow_Suc[of q "Suc n"] .
          show False
          proof (cases "Suc (Suc n) \<le> h")
            case True
            with a pe show False by auto
          next
            case False
            with n have "Suc n = h" by simp
            then have "pp = 1" unfolding pp_def using path_root[OF q] by simp
            with x a show False by simp
          qed
        qed
        then show "2 * p \<noteq> pp" "2 * p + 1 \<noteq> pp" by simp_all
      qed
      from a off inner[of p] have "inner_ok cmp recs g V p" by simp
      then show ?thesis
        unfolding inner_ok_def g_other[OF False] V_other[OF False] V_other[OF kid_ne(1)] V_other[OF kid_ne(2)] .
    qed
  next
    fix p :: nat assume a: "1 \<le> p \<and> p < 2 ^ (h + 1) \<and> (\<forall>m. Suc n < m \<and> m \<le> h \<longrightarrow> p \<noteq> q div 2 ^ m)"
    show "src_ok h k ?g ?V p"
    proof (cases "p = pp")
      case True
      with src_pp show ?thesis by simp
    next
      case False
      with a have off: "\<forall>m. n < m \<and> m \<le> h \<longrightarrow> p \<noteq> q div 2 ^ m"
        unfolding pp_def by (metis Suc_lessI)
      from a off src[of p] have "src_ok h k g V p" by simp
      then show ?thesis unfolding src_ok_def V_other[OF False] leafpos .
    qed
  next
    fix m assume m: "Suc n < m \<and> m \<le> h"
    then have m1: "n < m - 1" "m - 1 < h" "n < m" "m \<le> h" by linarith+
    have "q div 2 ^ m \<noteq> pp" unfolding pp_def using path_distinct[OF q m1(4) nh(2)] m by auto
    moreover have "sib (q div 2 ^ (m - 1)) \<noteq> pp"
      unfolding pp_def using sib_off_path[OF q m1(2) nh(2)] .
    ultimately show "?g ! (q div 2 ^ m) = ?V (sib (q div 2 ^ (m - 1)))"
      using stored[OF m1(3,4)] by simp
  qed
  then show "path_inv cmp recs h k q (Suc n) (if test then w else l) (g[pp := (if test then l else w)])
        (V(pp := (if test then w else l)))"
    unfolding w'_def l'_def .
  show "\<forall>p. 2 ^ h \<le> p \<longrightarrow> g[pp := (if test then l else w)] ! p = g ! p"
    using pph by simp
qed

lemma path_inv_root:
  fixes q :: nat
  assumes q: "2 ^ h \<le> q" "q < 2 ^ (h + 1)"
    and kh: "k \<le> 2 ^ h" and lr: "length recs = k"
    and inv: "path_inv cmp recs h k q h w g V"
  shows "tree_inv cmp recs h k (g[0 := w]) V"
proof -
  from inv have L: "length g = 2 ^ (h + 1)" and Vc: "V (q div 2 ^ h) = w"
    and leaf: "\<And>p. 2 ^ h \<le> p \<Longrightarrow> p < 2 ^ (h + 1) \<Longrightarrow> leaf_ok h k g V p"
    and inner: "\<And>p. 1 \<le> p \<Longrightarrow> p < 2 ^ h \<Longrightarrow> inner_ok cmp recs g V p"
    and src: "\<And>p. 1 \<le> p \<Longrightarrow> p < 2 ^ (h + 1) \<Longrightarrow> src_ok h k g V p"
    unfolding path_inv_def by auto
  have V1: "V 1 = w" using Vc path_root[OF q] by simp
  have o: "\<And>p. 0 < p \<Longrightarrow> g[0 := w] ! p = g ! p" by simp
  have lp: "\<And>j. g[0 := w] ! (2 ^ h + j) = g ! (2 ^ h + j)" by (intro o) simp
  have z: "g[0 := w] ! 0 = w" using L by simp
  show ?thesis
    unfolding tree_inv_def
  proof (intro conjI allI impI)
    show "length (g[0 := w]) = 2 ^ (h + 1)" using L by simp
    show "k \<le> 2 ^ h" by fact
    show "length recs = k" by fact
    show "g[0 := w] ! 0 = V 1" using z V1 by simp
  next
    fix p :: nat assume "2 ^ h \<le> p \<and> p < 2 ^ (h + 1)"
    then have p: "2 ^ h \<le> p" "p < 2 ^ (h + 1)" by simp_all
    then have "0 < p" by (metis less_le_trans zero_less_numeral zero_less_power)
    from leaf[OF p] show "leaf_ok h k (g[0 := w]) V p"
      unfolding leaf_ok_def o[OF \<open>0 < p\<close>] .
  next
    fix p :: nat assume "1 \<le> p \<and> p < 2 ^ h"
    then have p: "1 \<le> p" "p < 2 ^ h" "0 < p" by simp_all
    from inner[OF p(1,2)] show "inner_ok cmp recs (g[0 := w]) V p"
      unfolding inner_ok_def o[OF p(3)] .
  next
    fix p :: nat assume "1 \<le> p \<and> p < 2 ^ (h + 1)"
    then have p: "1 \<le> p" "p < 2 ^ (h + 1)" by simp_all
    from src[OF p] show "src_ok h k (g[0 := w]) V p"
      unfolding src_ok_def lp .
  qed
qed

lemma adjust_loop_step:
  assumes "cur \<noteq> 1" "cur div 2 < length hp"
    and "\<not> (winner \<noteq> - 1 \<and> hp ! (cur div 2) \<noteq> - 1 \<and>
              \<not> (is_run recs winner \<and> is_run recs (hp ! (cur div 2))))"
  shows "adjust_loop cmp recs cur winner hp =
     (if winner \<noteq> - 1 \<and>
              (hp ! (cur div 2) = - 1 \<or>
               cmp (recs ! nat winner) (recs ! nat (hp ! (cur div 2))) \<le> 0)
      then adjust_loop cmp recs (cur div 2) winner hp
      else adjust_loop cmp recs (cur div 2) (hp ! (cur div 2)) (hp[cur div 2 := winner]))"
  by (subst adjust_loop.simps) (simp only: assms if_False if_True simp_thms)

lemma adjust_loop_correct:
  fixes q :: nat
  assumes tot: "total_order_cmp cmp"
    and q: "2 ^ h \<le> q" "q < 2 ^ (h + 1)"
    and kh: "k \<le> 2 ^ h" and lr: "length recs = k"
  shows "n \<le> h \<Longrightarrow> path_inv cmp recs h k q n w g V \<Longrightarrow>
         \<exists>g' w' V'. adjust_loop cmp recs (q div 2 ^ n) w g = Some (Inr (g', w')) \<and>
                    tree_inv cmp recs h k (g'[0 := w']) V' \<and>
                    (\<forall>p. 2 ^ h \<le> p \<longrightarrow> g' ! p = g ! p)"
proof (induction "h - n" arbitrary: n w g V)
  case 0
  then have nh: "n = h" by simp
  from "0.prems"(2) have inv: "path_inv cmp recs h k q h w g V" unfolding nh .
  have "adjust_loop cmp recs (q div 2 ^ n) w g = Some (Inr (g, w))"
    unfolding nh path_root[OF q] by (subst adjust_loop.simps) simp
  with path_inv_root[OF q kh lr inv] show ?case by blast
next
  case (Suc d)
  then have n: "n < h" by simp
  define pp where "pp = q div 2 ^ Suc n"
  define l where "l = g ! pp"
  define test where "test = (w \<noteq> - 1 \<and> (l = - 1 \<or> cmp (recs ! nat w) (recs ! nat l) \<le> 0))"
  note St = path_inv_step[OF tot q lr n Suc.prems(2), folded pp_def, folded l_def, folded test_def]
  have d: "d = h - Suc n" using Suc.hyps(2) by simp
  have sn: "Suc n \<le> h" using n by simp
  from Suc.hyps(1)[OF d sn St(5)] obtain g' w' V' where
    R: "adjust_loop cmp recs (q div 2 ^ Suc n) (if test then w else l) (g[pp := if test then l else w])
          = Some (Inr (g', w'))"
      "tree_inv cmp recs h k (g'[0 := w']) V'"
      "\<forall>p. 2 ^ h \<le> p \<longrightarrow> g' ! p = g[pp := if test then l else w] ! p"
    by blast
  have unf: "adjust_loop cmp recs (q div 2 ^ n) w g =
      adjust_loop cmp recs pp (if test then w else l) (g[pp := if test then l else w])"
  proof -
    have g4: "\<not> (w \<noteq> - 1 \<and> g ! (q div 2 ^ n div 2) \<noteq> - 1 \<and>
              \<not> (is_run recs w \<and> is_run recs (g ! (q div 2 ^ n div 2))))"
      using St(4) unfolding St(2) l_def .
    have g3: "q div 2 ^ n div 2 < length g" using St(3) unfolding St(2) .
    have id: "g[pp := l] = g" unfolding l_def by (rule list_update_id)
    show ?thesis
      unfolding adjust_loop_step[OF St(1) g3 g4] St(2) l_def[symmetric] test_def[symmetric]
      by (cases test) (simp_all add: id)
  qed
  from R(3) St(6) have "\<forall>p. 2 ^ h \<le> p \<longrightarrow> g' ! p = g ! p" by simp
  with R(1,2) unf show ?case unfolding pp_def by auto
qed

lemma tree_inv_min:
  fixes h k :: nat
  assumes tot: "total_order_cmp cmp"
    and ti: "tree_inv cmp recs h k hp W"
    and i: "i < k" and live: "hp ! (2 ^ h + i) = int i"
  shows "beats cmp recs (hp ! 0) (int i)"
proof -
  let ?q = "2 ^ h + i"
  from ti have kh: "k \<le> 2 ^ h"
    and leaf: "\<And>p. 2 ^ h \<le> p \<Longrightarrow> p < 2 ^ (h + 1) \<Longrightarrow> leaf_ok h k hp W p"
    and inner: "\<And>p. 1 \<le> p \<Longrightarrow> p < 2 ^ h \<Longrightarrow> inner_ok cmp recs hp W p"
    and root: "hp ! 0 = W 1"
    unfolding tree_inv_def by auto
  have q: "2 ^ h \<le> ?q" "?q < 2 ^ (h + 1)" using i kh by simp_all
  from leaf[OF q] live have Wq: "W ?q = int i" by (simp add: leaf_ok_def)
  have "\<And>n. n \<le> h \<Longrightarrow> beats cmp recs (W (?q div 2 ^ n)) (W ?q)"
  proof -
    fix n show "n \<le> h \<Longrightarrow> beats cmp recs (W (?q div 2 ^ n)) (W ?q)"
    proof (induction n)
      case 0
      show ?case using beats_refl[OF tot] by simp
    next
      case (Suc n)
      then have n: "n < h" and IH: "beats cmp recs (W (?q div 2 ^ n)) (W ?q)" by simp_all
      let ?c = "?q div 2 ^ n" and ?pp = "?q div 2 ^ Suc n"
      have c2: "2 \<le> ?c" by (rule path_ge2[OF q n])
      have cd: "?c div 2 = ?pp" by (rule div_pow_Suc[symmetric])
      have lv: "2 ^ (h - Suc n) \<le> ?pp" "?pp < 2 ^ (h - Suc n + 1)"
        using path_level[OF q Suc.prems] by simp_all
      have pp1: "1 \<le> ?pp" using lv(1) by (metis One_nat_def Suc_leI less_le_trans zero_less_numeral zero_less_power)
      have "(2::nat) ^ (h - Suc n + 1) \<le> 2 ^ h" by (intro power_increasing) (use n in simp_all)
      with lv(2) have pph: "?pp < 2 ^ h" by simp
      from inner[OF pp1 pph] have io: "inner_ok cmp recs hp W ?pp" .
      have kid: "?c = 2 * ?pp \<or> ?c = 2 * ?pp + 1" using cd by linarith
      from io kid have "W ?c = W ?pp \<or> W ?c = hp ! ?pp" unfolding inner_ok_def by metis
      moreover from io have "beats cmp recs (W ?pp) (hp ! ?pp)" unfolding inner_ok_def by blast
      ultimately have "beats cmp recs (W ?pp) (W ?c)" using beats_refl[OF tot] by metis
      from beats_trans[OF tot this IH] show ?case .
    qed
  qed
  from this[of h] have "beats cmp recs (W 1) (W ?q)" using path_root[OF q] by simp
  then show ?thesis unfolding root Wq .
qed

lemma beats_cong:
  assumes "\<forall>i. i \<noteq> f \<longrightarrow> recs' ! i = recs ! i"
    and "a = - 1 \<or> (0 \<le> a \<and> a \<noteq> int f)" and "b = - 1 \<or> (0 \<le> b \<and> b \<noteq> int f)"
  shows "beats cmp recs' a b = beats cmp recs a b"
proof -
  have "\<And>x. 0 \<le> x \<Longrightarrow> x \<noteq> int f \<Longrightarrow> recs' ! nat x = recs ! nat x"
    using assms(1) by (metis int_nat_eq)
  with assms(2,3) show ?thesis unfolding beats_def by metis
qed

lemma sib_kids:
  assumes "2 \<le> c"
  shows "(2 * (c div 2) = c \<and> 2 * (c div 2) + 1 = sib c) \<or>
         (2 * (c div 2) = sib c \<and> 2 * (c div 2) + 1 = c)"
proof (cases "even c")
  case True
  then have "2 * (c div 2) = c" by simp
  then show ?thesis using True by (simp add: sib_def)
next
  case False
  then have "2 * (c div 2) + 1 = c" by (metis odd_two_times_div_two_succ)
  moreover have "sib c = c - 1" using False by (simp add: sib_def)
  ultimately show ?thesis by linarith
qed

lemma winner_path:
  fixes h k f :: nat
  assumes ti: "tree_inv cmp recs h k hp W"
    and f: "hp ! 0 = int f"
  defines "q \<equiv> 2 ^ h + f"
  shows "f < k" "hp ! q = int f" "2 ^ h \<le> q" "q < 2 ^ (h + 1)"
    "\<And>p. 1 \<le> p \<Longrightarrow> p < 2 ^ (h + 1) \<Longrightarrow> W p = int f \<Longrightarrow> \<exists>m\<le>h. p = q div 2 ^ m"
    "\<And>n. n \<le> h \<Longrightarrow> W (q div 2 ^ n) = int f"
    "\<And>m. 0 < m \<Longrightarrow> m \<le> h \<Longrightarrow> hp ! (q div 2 ^ m) = W (sib (q div 2 ^ (m - 1)))"
proof -
  from ti have kh: "k \<le> 2 ^ h"
    and inner: "\<And>p. 1 \<le> p \<Longrightarrow> p < 2 ^ h \<Longrightarrow> inner_ok cmp recs hp W p"
    and src: "\<And>p. 1 \<le> p \<Longrightarrow> p < 2 ^ (h + 1) \<Longrightarrow> src_ok h k hp W p"
    and root: "hp ! 0 = W 1"
    unfolding tree_inv_def by auto
  have W1: "W 1 = int f" using root f by simp
  have "(1::nat) < 2 ^ (h + 1)" by (rule one_less_power) simp_all
  then have "src_ok h k hp W 1" by (intro src) simp_all
  with W1 have s1: "f < k \<and> hp ! (2 ^ h + f) = int f" unfolding src_ok_def by auto
  show fk: "f < k" using s1 by simp
  show "hp ! q = int f" unfolding q_def using s1 by simp
  show q: "2 ^ h \<le> q" "q < 2 ^ (h + 1)" unfolding q_def using fk kh by simp_all
  show on: "\<exists>m\<le>h. p = q div 2 ^ m" if p: "1 \<le> p" "p < 2 ^ (h + 1)" and Wp: "W p = int f" for p
  proof -
    from src[OF p] Wp have "anc p (2 ^ h + f)" unfolding src_ok_def by auto
    then have "anc p q" unfolding q_def .
    from anc_on_path[OF q this p(1)] show ?thesis .
  qed
  have step: "W (q div 2 ^ n) = int f \<and> hp ! (q div 2 ^ Suc n) = W (sib (q div 2 ^ n))"
    if n: "n < h" and IH: "W (q div 2 ^ Suc n) = int f" for n
  proof -
    let ?c = "q div 2 ^ n" and ?pp = "q div 2 ^ Suc n"
    have c2: "2 \<le> ?c" by (rule path_ge2[OF q n])
    have cd: "?c div 2 = ?pp" by (rule div_pow_Suc[symmetric])
    have nh: "n \<le> h" "Suc n \<le> h" using n by simp_all
    have lv: "2 ^ (h - Suc n) \<le> ?pp" "?pp < 2 ^ (h - Suc n + 1)"
      using path_level[OF q nh(2)] by simp_all
    have pp1: "1 \<le> ?pp" using lv(1) by (metis One_nat_def Suc_leI less_le_trans zero_less_numeral zero_less_power)
    have "(2::nat) ^ (h - Suc n + 1) \<le> 2 ^ h" by (intro power_increasing) (use n in simp_all)
    with lv(2) have pph: "?pp < 2 ^ h" by simp
    have c_up: "?c < 2 ^ (h + 1)" using path_level(2)[OF q nh(1)]
      by (meson less_le_trans power_increasing diff_le_self add_le_mono1 one_le_numeral)
    have s_up: "sib ?c < 2 ^ (h + 1)" by (rule sib_upper[OF c2 c_up])
    have s1: "1 \<le> sib ?c" using sib_facts(3)[OF c2] .
    have Ws: "W (sib ?c) \<noteq> int f"
    proof
      assume "W (sib ?c) = int f"
      from on[OF s1 s_up this] obtain m where "m \<le> h" "sib ?c = q div 2 ^ m" by blast
      with sib_off_path[OF q n, of m] show False by simp
    qed
    define a where "a = 2 * ?pp"
    define b where "b = 2 * ?pp + 1"
    from sib_kids[OF c2] have kids: "(a = ?c \<and> b = sib ?c) \<or> (a = sib ?c \<and> b = ?c)"
      unfolding cd a_def b_def .
    from inner[OF pp1 pph] have io:
      "(W ?pp = W a \<and> hp ! ?pp = W b) \<or> (W ?pp = W b \<and> hp ! ?pp = W a)"
      unfolding inner_ok_def a_def b_def by blast
    from kids io IH Ws show ?thesis by metis
  qed
  have down: "d \<le> h \<Longrightarrow> W (q div 2 ^ (h - d)) = int f" for d
  proof (induction d)
    case 0
    show ?case using path_root[OF q] W1 by simp
  next
    case (Suc d)
    then have IH: "W (q div 2 ^ (h - d)) = int f" and d: "d < h" by simp_all
    have e: "Suc (h - Suc d) = h - d" using d by simp
    have "h - Suc d < h" using d by simp
    from step[OF this] IH show ?case unfolding e by blast
  qed
  show Wn: "W (q div 2 ^ n) = int f" if "n \<le> h" for n
    using down[of "h - n"] that by simp
  show "hp ! (q div 2 ^ m) = W (sib (q div 2 ^ (m - 1)))" if m: "0 < m" "m \<le> h" for m
  proof -
    obtain n where mn: "m = Suc n" using m(1) by (cases m) simp_all
    have n: "n < h" using m(2) mn by simp
    from step[OF n] Wn[OF m(2)] show ?thesis unfolding mn by simp
  qed
qed

lemma path_inv_initial:
  fixes h k f :: nat
  assumes ti: "tree_inv cmp recs h k hp W"
    and f: "hp ! 0 = int f"
    and lr': "length recs' = k"
    and same: "\<forall>i. i \<noteq> f \<longrightarrow> recs' ! i = recs ! i"
    and w0: "w0 = int f \<or> w0 = - 1"
  shows "path_inv cmp recs' h k (2 ^ h + f) 0 w0 (hp[2 ^ h + f := w0]) (W(2 ^ h + f := w0))"
proof -
  define q where "q = 2 ^ h + f"
  define g where "g = hp[q := w0]"
  define V where "V = W(q := w0)"
  from ti have L: "length hp = 2 ^ (h + 1)" and kh: "k \<le> 2 ^ h"
    and leaf: "\<And>p. 2 ^ h \<le> p \<Longrightarrow> p < 2 ^ (h + 1) \<Longrightarrow> leaf_ok h k hp W p"
    and inner: "\<And>p. 1 \<le> p \<Longrightarrow> p < 2 ^ h \<Longrightarrow> inner_ok cmp recs hp W p"
    and src: "\<And>p. 1 \<le> p \<Longrightarrow> p < 2 ^ (h + 1) \<Longrightarrow> src_ok h k hp W p"
    unfolding tree_inv_def by auto
  note P = winner_path[OF ti f, folded q_def]
  note fk = P(1) and q = P(3,4)
  have ql: "q < length hp" using q(2) L by simp
  have gq: "g ! q = w0" unfolding g_def using ql by simp
  have gp: "g ! p = hp ! p" if "p \<noteq> q" for p unfolding g_def using that by simp
  have Vq: "V q = w0" unfolding V_def by simp
  have Vp: "V p = W p" if "p \<noteq> q" for p unfolding V_def using that by simp
  have qf: "q - 2 ^ h = f" unfolding q_def by simp
  have offW: "W p \<noteq> int f" if "1 \<le> p" "p < 2 ^ (h + 1)" "\<forall>m\<le>h. p \<noteq> q div 2 ^ m" for p
    using P(5)[OF that(1,2)] that(3) by blast
  have sgn: "W p = - 1 \<or> 0 \<le> W p" if "1 \<le> p" "p < 2 ^ (h + 1)" for p
    using src[OF that] unfolding src_ok_def by blast
  have kid_off: "\<forall>m\<le>h. c \<noteq> q div 2 ^ m"
    if p: "1 \<le> p" and off: "\<forall>m. 0 < m \<and> m \<le> h \<longrightarrow> p \<noteq> q div 2 ^ m"
      and c: "c = 2 * p \<or> c = 2 * p + 1" for p c
  proof (intro allI impI notI)
    fix m assume m: "m \<le> h" and e: "c = q div 2 ^ m"
    have c2: "2 \<le> c" using p c by linarith
    have "m \<noteq> h" using path_root[OF q] e c2 by auto
    then have mh: "Suc m \<le> h" using m by simp
    have "c div 2 = p" using c by linarith
    then have "p = q div 2 ^ Suc m" unfolding e div_pow_Suc by simp
    moreover from off mh have "p \<noteq> q div 2 ^ Suc m" by blast
    ultimately show False by blast
  qed
  have a: "length g = 2 ^ (h + 1)" unfolding g_def using L by simp
  have b: "V (q div 2 ^ 0) = w0" using Vq by simp
  have c: "leaf_ok h k g V p" if p: "2 ^ h \<le> p" "p < 2 ^ (h + 1)" for p
  proof (cases "p = q")
    case True
    show ?thesis unfolding True leaf_ok_def Vq gq qf using w0 fk by blast
  next
    case False
    show ?thesis using leaf[OF p] unfolding leaf_ok_def Vp[OF False] gp[OF False] .
  qed
  have d: "inner_ok cmp recs' g V p"
    if p: "1 \<le> p" "p < 2 ^ h" and off: "\<forall>m. 0 < m \<and> m \<le> h \<longrightarrow> p \<noteq> q div 2 ^ m" for p
  proof -
    define c1 where "c1 = 2 * p"
    define c2 where "c2 = 2 * p + 1"
    have pq: "p \<noteq> q" using p(2) q(1) by simp
    have pu: "p < 2 ^ (h + 1)" using p(2) by simp
    have off0: "\<forall>m\<le>h. p \<noteq> q div 2 ^ m"
    proof (intro allI impI)
      fix m assume "m \<le> h"
      show "p \<noteq> q div 2 ^ m" using off \<open>m \<le> h\<close> pq by (cases "m = 0") simp_all
    qed
    have k1: "\<forall>m\<le>h. c1 \<noteq> q div 2 ^ m" by (rule kid_off[OF p(1) off]) (simp add: c1_def)
    have k2: "\<forall>m\<le>h. c2 \<noteq> q div 2 ^ m" by (rule kid_off[OF p(1) off]) (simp add: c2_def)
    have c1q: "c1 \<noteq> q" using k1 by (metis div_by_1 le0 power_0)
    have c2q: "c2 \<noteq> q" using k2 by (metis div_by_1 le0 power_0)
    have cb: "1 \<le> c1" "c1 < 2 ^ (h + 1)" "1 \<le> c2" "c2 < 2 ^ (h + 1)"
      unfolding c1_def c2_def using p by simp_all
    from inner[OF p] have io: "((W p = W c1 \<and> hp ! p = W c2) \<or> (W p = W c2 \<and> hp ! p = W c1))"
      and bt: "beats cmp recs (W p) (hp ! p)"
      unfolding inner_ok_def c1_def c2_def by blast+
    have Wp: "W p = - 1 \<or> (0 \<le> W p \<and> W p \<noteq> int f)"
      using sgn[OF p(1) pu] offW[OF p(1) pu off0] by blast
    have W1: "W c1 = - 1 \<or> (0 \<le> W c1 \<and> W c1 \<noteq> int f)"
      using sgn[OF cb(1,2)] offW[OF cb(1,2) k1] by blast
    have W2: "W c2 = - 1 \<or> (0 \<le> W c2 \<and> W c2 \<noteq> int f)"
      using sgn[OF cb(3,4)] offW[OF cb(3,4) k2] by blast
    from io W1 W2 have hpp: "hp ! p = - 1 \<or> (0 \<le> hp ! p \<and> hp ! p \<noteq> int f)" by metis
    have bt': "beats cmp recs' (W p) (hp ! p)"
      using beats_cong[OF same Wp hpp] bt by simp
    have "((V p = V c1 \<and> g ! p = V c2) \<or> (V p = V c2 \<and> g ! p = V c1))
        \<and> beats cmp recs' (V p) (g ! p)"
      unfolding Vp[OF pq] Vp[OF c1q] Vp[OF c2q] gp[OF pq] using io bt' by blast
    then show ?thesis unfolding inner_ok_def c1_def c2_def .
  qed
  have e: "src_ok h k g V p"
    if p: "1 \<le> p" "p < 2 ^ (h + 1)" and off: "\<forall>m. 0 < m \<and> m \<le> h \<longrightarrow> p \<noteq> q div 2 ^ m" for p
  proof (cases "p = q")
    case True
    from w0 show ?thesis
    proof
      assume "w0 = - 1"
      then show ?thesis unfolding True src_ok_def Vq by simp
    next
      assume w: "w0 = int f"
      have "anc q q" by (rule anc_refl)
      then have "0 \<le> int f \<and> nat (int f) < k \<and> g ! (2 ^ h + nat (int f)) = int f \<and>
            anc q (2 ^ h + nat (int f))"
        using fk gq unfolding w q_def by simp
      then show ?thesis unfolding True src_ok_def Vq w by blast
    qed
  next
    case False
    have off0: "\<forall>m\<le>h. p \<noteq> q div 2 ^ m"
    proof (intro allI impI)
      fix m assume "m \<le> h"
      show "p \<noteq> q div 2 ^ m" using off \<open>m \<le> h\<close> False by (cases "m = 0") simp_all
    qed
    note nf = offW[OF p off0]
    from src[OF p] have "W p = - 1 \<or>
      (0 \<le> W p \<and> nat (W p) < k \<and> hp ! (2 ^ h + nat (W p)) = W p \<and> anc p (2 ^ h + nat (W p)))"
      unfolding src_ok_def .
    then show ?thesis
    proof
      assume "W p = - 1"
      then show ?thesis unfolding src_ok_def Vp[OF False] by simp
    next
      assume A: "0 \<le> W p \<and> nat (W p) < k \<and> hp ! (2 ^ h + nat (W p)) = W p \<and> anc p (2 ^ h + nat (W p))"
      have "nat (W p) \<noteq> f" using A nf by auto
      then have "2 ^ h + nat (W p) \<noteq> q" unfolding q_def by simp
      from gp[OF this] A show ?thesis unfolding src_ok_def Vp[OF False] by simp
    qed
  qed
  have ff: "g ! (q div 2 ^ m) = V (sib (q div 2 ^ (m - 1)))" if m: "0 < m" "m \<le> h" for m
  proof -
    have "q div 2 ^ m \<noteq> q div 2 ^ 0" using path_distinct[OF q m(2), of 0] m(1) by blast
    then have 1: "q div 2 ^ m \<noteq> q" by simp
    have "m - 1 < h" using m by simp
    from sib_off_path[OF q this, of 0] have 2: "sib (q div 2 ^ (m - 1)) \<noteq> q" by simp
    show ?thesis unfolding gp[OF 1] Vp[OF 2] by (rule P(7)[OF m])
  qed
  have "path_inv cmp recs' h k q 0 w0 g V"
    unfolding path_inv_def using a b c d e ff by blast
  then show ?thesis unfolding q_def g_def V_def .
qed

section \<open>External merge sorter: the read phase\<close>

lemma adjust_eof_eq:
  assumes "heap s \<noteq> []" "is_run (opened_files s) (heap s ! 0)" "is_run (record_list s) (heap s ! 0)"
    and "height_of (length (files s)) = Inr h"
    and "opened_files s ! nat (heap s ! 0) = []"
    and "nat (heap s ! 0) + 2 ^ h < length (heap s)"
    and "adjust_loop cmp (record_list s) (nat (heap s ! 0) + 2 ^ h) (- 1)
            ((heap s)[nat (heap s ! 0) + 2 ^ h := - 1]) = Some (Inr (g, w))"
  shows "adjust cmp s = Some (Inr (s\<lparr>heap := g[0 := w]\<rparr>))"
  unfolding adjust_def using assms by simp

lemma adjust_refill_eq:
  assumes "heap s \<noteq> []" "is_run (opened_files s) (heap s ! 0)" "is_run (record_list s) (heap s ! 0)"
    and "height_of (length (files s)) = Inr h"
    and "opened_files s ! nat (heap s ! 0) = r # rest"
    and "adjust_loop cmp ((record_list s)[nat (heap s ! 0) := r])
            (nat (heap s ! 0) + 2 ^ h) (heap s ! 0) (heap s) = Some (Inr (g, w))"
  shows "adjust cmp s = Some (Inr (s\<lparr>opened_files := (opened_files s)[nat (heap s ! 0) := rest],
                                    record_list := (record_list s)[nat (heap s ! 0) := r],
                                    heap := g[0 := w]\<rparr>))"
  unfolding adjust_def using assms by simp

lemma adjust_ok:
  fixes f :: nat
  assumes tot: "total_order_cmp cmp"
    and inv: "read_inv cmp s"
    and f: "heap s ! 0 = int f"
  shows "\<exists>s'. adjust cmp s = Some (Inr s') \<and> read_inv cmp s' \<and> files s' = files s \<and>
              f < length (files s) \<and>
              (\<forall>i<length (files s). i \<noteq> f \<longrightarrow> run_rest s' i = run_rest s i) \<and>
              run_rest s f = record_list s ! f # run_rest s' f"
proof -
  define k where "k = length (files s)"
  define h where "h = ceil_log2 k"
  define q where "q = 2 ^ h + f"
  define hp where "hp = heap s"
  define recs where "recs = record_list s"
  define str where "str = opened_files s"
  from inv obtain W where k1: "1 \<le> k" and lo: "length str = k"
    and ti: "tree_inv cmp recs h k hp W"
    and so: "\<And>i. i < k \<Longrightarrow> sorted_wrt (\<lambda>a b. cmp a b \<le> 0) (run_rest s i)"
    unfolding read_inv_def k_def h_def hp_def recs_def str_def by blast
  from ti have L: "length hp = 2 ^ (h + 1)" and kh: "k \<le> 2 ^ h" and lr: "length recs = k"
    unfolding tree_inv_def by auto
  have f': "hp ! 0 = int f" using f unfolding hp_def .
  note P = winner_path[OF ti f', folded q_def]
  note fk = P(1) and hq = P(2) and q = P(3,4)
  have ql: "q < length hp" using q(2) L by simp
  have hne: "heap s \<noteq> []" using L unfolding hp_def by auto
  have ir1: "is_run (opened_files s) (heap s ! 0)"
    unfolding f is_run_def using fk lo unfolding str_def by simp
  have ir2: "is_run (record_list s) (heap s ! 0)"
    unfolding f is_run_def using fk lr unfolding recs_def by simp
  have ho: "height_of (length (files s)) = Inr h"
    unfolding height_of_def h_def k_def using k1 unfolding k_def by auto
  have nf: "nat (heap s ! 0) = f" unfolding f by simp
  have qc: "f + 2 ^ h = q" unfolding q_def by simp
  have rr: "run_rest t i = (if heap t ! (2 ^ h + i) = int i then record_list t ! i # opened_files t ! i else [])"
    if "files t = files s" for t i
    unfolding run_rest_def that h_def k_def ..
  have rs: "run_rest s i = (if hp ! (2 ^ h + i) = int i then recs ! i # str ! i else [])" for i
    unfolding rr[OF refl] hp_def recs_def str_def ..
  have rsf: "run_rest s f = recs ! f # str ! f" unfolding rs using hq unfolding q_def by simp
  show ?thesis
  proof (cases "str ! f")
    case Nil
    have pi: "path_inv cmp recs h k q 0 (- 1) (hp[q := - 1]) (W(q := - 1))"
      unfolding q_def by (rule path_inv_initial[OF ti f' lr]) simp_all
    from adjust_loop_correct[OF tot q kh lr, of 0, OF _ pi]
    obtain g' w' V' where al: "adjust_loop cmp recs (q div 2 ^ 0) (- 1) (hp[q := - 1]) = Some (Inr (g', w'))"
      and ti': "tree_inv cmp recs h k (g'[0 := w']) V'"
      and lv: "\<And>p. 2 ^ h \<le> p \<Longrightarrow> g' ! p = (hp[q := - 1]) ! p"
      by auto
    define s' where "s' = s\<lparr>heap := g'[0 := w']\<rparr>"
    have al': "adjust_loop cmp (record_list s) (nat (heap s ! 0) + 2 ^ h) (- 1)
            ((heap s)[nat (heap s ! 0) + 2 ^ h := - 1]) = Some (Inr (g', w'))"
      unfolding nf qc using al unfolding hp_def recs_def by simp
    have "adjust cmp s = Some (Inr s')" unfolding s'_def
      by (rule adjust_eof_eq[OF hne ir1 ir2 ho _ _ al'])
         (use Nil ql in \<open>simp_all add: nf qc str_def hp_def\<close>)
    moreover have fs: "files s' = files s" unfolding s'_def by simp
    have hs': "heap s' ! (2 ^ h + i) = (hp[q := - 1]) ! (2 ^ h + i)" for i
    proof -
      have "(g'[0 := w']) ! (2 ^ h + i) = g' ! (2 ^ h + i)" by simp
      then show ?thesis unfolding s'_def using lv[of "2 ^ h + i"] by simp
    qed
    have rs': "run_rest s' i = (if (hp[q := - 1]) ! (2 ^ h + i) = int i then recs ! i # str ! i else [])" for i
      unfolding rr[OF fs] hs' unfolding s'_def recs_def str_def by simp
    have other: "run_rest s' i = run_rest s i" if "i \<noteq> f" for i
    proof -
      have "2 ^ h + i \<noteq> q" unfolding q_def using that by simp
      then show ?thesis unfolding rs' rs by simp
    qed
    have self: "run_rest s' f = []" unfolding rs' using ql unfolding q_def by simp
    have "read_inv cmp s'"
    proof -
      have "sorted_wrt (\<lambda>a b. cmp a b \<le> 0) (run_rest s' i)" if "i < k" for i
        using so[OF that] other[of i] self by (cases "i = f") simp_all
      moreover have "tree_inv cmp (record_list s') (ceil_log2 (length (files s'))) (length (files s')) (heap s') V'"
        using ti' unfolding s'_def h_def k_def recs_def by simp
      moreover have "length (opened_files s') = length (files s')" "1 \<le> length (files s')"
        using lo k1 unfolding s'_def str_def k_def by simp_all
      ultimately show ?thesis unfolding read_inv_def fs k_def by blast
    qed
    moreover have "run_rest s f = record_list s ! f # run_rest s' f"
      unfolding rsf self Nil recs_def ..
    ultimately show ?thesis using fs fk other unfolding k_def by blast
  next
    case (Cons r rest)
    define recs' where "recs' = recs[f := r]"
    have lr': "length recs' = k" unfolding recs'_def using lr by simp
    have same: "\<forall>i. i \<noteq> f \<longrightarrow> recs' ! i = recs ! i" unfolding recs'_def by simp
    have "path_inv cmp recs' h k (2 ^ h + f) 0 (int f) (hp[2 ^ h + f := int f]) (W(2 ^ h + f := int f))"
      by (rule path_inv_initial[OF ti f' lr' same]) simp
    moreover have "hp[q := int f] = hp" using hq by (metis list_update_id)
    ultimately have pi: "path_inv cmp recs' h k q 0 (int f) hp (W(q := int f))"
      unfolding q_def by simp
    from adjust_loop_correct[OF tot q kh lr', of 0, OF _ pi]
    obtain g' w' V' where al: "adjust_loop cmp recs' (q div 2 ^ 0) (int f) hp = Some (Inr (g', w'))"
      and ti': "tree_inv cmp recs' h k (g'[0 := w']) V'"
      and lv: "\<And>p. 2 ^ h \<le> p \<Longrightarrow> g' ! p = hp ! p"
      by auto
    define s' where "s' = s\<lparr>opened_files := (opened_files s)[nat (heap s ! 0) := rest],
                                    record_list := (record_list s)[nat (heap s ! 0) := r],
                                    heap := g'[0 := w']\<rparr>"
    have al': "adjust_loop cmp ((record_list s)[nat (heap s ! 0) := r])
            (nat (heap s ! 0) + 2 ^ h) (heap s ! 0) (heap s) = Some (Inr (g', w'))"
      unfolding nf qc unfolding f using al unfolding hp_def recs'_def recs_def by simp
    have "adjust cmp s = Some (Inr s')" unfolding s'_def
      by (rule adjust_refill_eq[OF hne ir1 ir2 ho _ al'])
         (use Cons in \<open>simp_all add: nf str_def\<close>)
    moreover have fs: "files s' = files s" unfolding s'_def by simp
    have hs': "heap s' ! (2 ^ h + i) = hp ! (2 ^ h + i)" for i
    proof -
      have "(g'[0 := w']) ! (2 ^ h + i) = g' ! (2 ^ h + i)" by simp
      then show ?thesis unfolding s'_def using lv[of "2 ^ h + i"] by simp
    qed
    have rs': "run_rest s' i = (if hp ! (2 ^ h + i) = int i then recs' ! i # (str[f := rest]) ! i else [])" for i
      unfolding rr[OF fs] hs' unfolding s'_def recs'_def recs_def str_def nf by simp
    have other: "run_rest s' i = run_rest s i" if "i \<noteq> f" for i
      unfolding rs' rs using that same by simp
    have self: "run_rest s' f = r # rest"
      unfolding rs' recs'_def using hq fk lr lo unfolding q_def by simp
    have "read_inv cmp s'"
    proof -
      have "sorted_wrt (\<lambda>a b. cmp a b \<le> 0) (run_rest s' i)" if "i < k" for i
      proof (cases "i = f")
        case True
        from so[OF fk] show ?thesis unfolding True self rsf Cons by simp
      next
        case False
        then show ?thesis using so[OF that] other[of i] by simp
      qed
      moreover have "tree_inv cmp (record_list s') (ceil_log2 (length (files s'))) (length (files s')) (heap s') V'"
        using ti' unfolding s'_def h_def k_def recs'_def recs_def nf by simp
      moreover have "length (opened_files s') = length (files s')" "1 \<le> length (files s')"
        using lo k1 unfolding s'_def str_def k_def by simp_all
      ultimately show ?thesis unfolding read_inv_def fs k_def by blast
    qed
    moreover have "run_rest s f = record_list s ! f # run_rest s' f"
      unfolding rsf self Cons recs_def ..
    ultimately show ?thesis using fs fk other unfolding k_def by blast
  qed
qed

lemma remaining_member:
  assumes "y \<in># remaining s"
  shows "\<exists>j<length (files s). y \<in> set (run_rest s j)"
proof -
  have "y \<in># (\<Sum>i\<in>A. mset (run_rest s i)) \<Longrightarrow> \<exists>j\<in>A. y \<in> set (run_rest s j)"
    if "finite A" for A :: "nat set"
    using that by (induction A rule: finite_induct) auto
  from this[of "{..<length (files s)}"] assms show ?thesis
    unfolding remaining_def by auto
qed

lemma remaining_split:
  assumes "f < length (files s)"
  shows "remaining s = mset (run_rest s f) + (\<Sum>i\<in>{..<length (files s)} - {f}. mset (run_rest s i))"
  unfolding remaining_def using assms by (intro sum.remove) simp_all

lemma read_step:
  assumes tot: "total_order_cmp cmp"
    and inv: "read_inv cmp s"
    and ne: "remaining s \<noteq> {#}"
  shows "\<exists>x s'. read cmp s = Some (Inr (x, s')) \<and> read_inv cmp s' \<and>
                remaining s = add_mset x (remaining s') \<and> (\<forall>y\<in>#remaining s. cmp x y \<le> 0)"
proof -
  define k where "k = length (files s)"
  define h where "h = ceil_log2 k"
  define hp where "hp = heap s"
  define recs where "recs = record_list s"
  from inv obtain W where ti: "tree_inv cmp recs h k hp W"
    and so: "\<And>i. i < k \<Longrightarrow> sorted_wrt (\<lambda>a b. cmp a b \<le> 0) (run_rest s i)"
    unfolding read_inv_def k_def h_def hp_def recs_def by blast
  from ti have L: "length hp = 2 ^ (h + 1)" and lr: "length recs = k"
    and src: "\<And>p. 1 \<le> p \<Longrightarrow> p < 2 ^ (h + 1) \<Longrightarrow> src_ok h k hp W p"
    and root: "hp ! 0 = W 1"
    unfolding tree_inv_def by auto
  have live: "hp ! (2 ^ h + j) = int j" if "run_rest s j \<noteq> []" for j
    using that unfolding run_rest_def hp_def h_def k_def by (simp split: if_splits)
  have head: "run_rest s j = recs ! j # tl (run_rest s j)" if "run_rest s j \<noteq> []" for j
    using that unfolding run_rest_def recs_def by (simp split: if_splits)
  have win: "beats cmp recs (hp ! 0) (int j)" if "j < k" "run_rest s j \<noteq> []" for j
    by (rule tree_inv_min[OF tot ti that(1) live[OF that(2)]])
  from ne obtain y0 where "y0 \<in># remaining s" by (meson multiset_nonemptyE)
  from remaining_member[OF this] obtain j0 where "j0 < k" "y0 \<in> set (run_rest s j0)"
    unfolding k_def by blast
  then have j0: "j0 < k" "run_rest s j0 \<noteq> []" by auto
  from win[OF j0] have n1: "hp ! 0 \<noteq> - 1" unfolding beats_def by auto
  have "(1::nat) < 2 ^ (h + 1)" by (rule one_less_power) simp_all
  then have "src_ok h k hp W 1" by (intro src) simp_all
  with n1 root have "0 \<le> hp ! 0" unfolding src_ok_def by auto
  then obtain f where f: "hp ! 0 = int f" by (metis nonneg_int_cases)
  from adjust_ok[OF tot inv f[unfolded hp_def]]
  obtain s' where ad: "adjust cmp s = Some (Inr s')" and inv': "read_inv cmp s'"
    and fs: "files s' = files s" and fk: "f < k"
    and other: "\<And>i. i < k \<Longrightarrow> i \<noteq> f \<Longrightarrow> run_rest s' i = run_rest s i"
    and self: "run_rest s f = recs ! f # run_rest s' f"
    unfolding k_def recs_def by blast
  define x where "x = recs ! f"
  have hne: "heap s \<noteq> []" using L unfolding hp_def by auto
  have ir: "is_run (record_list s) (heap s ! 0)"
    using f fk lr unfolding is_run_def hp_def recs_def by simp
  have rd: "read cmp s = Some (Inr (x, s'))"
    unfolding read_def x_def recs_def using hne ir ad f[unfolded hp_def] by simp
  have "(\<Sum>i\<in>{..<k} - {f}. mset (run_rest s i)) = (\<Sum>i\<in>{..<k} - {f}. mset (run_rest s' i))"
    by (rule sum.cong) (simp_all add: other)
  then have rem: "remaining s = add_mset x (remaining s')"
    unfolding remaining_split[OF fk[unfolded k_def]] remaining_split[of f s', unfolded fs, OF fk[unfolded k_def]]
    unfolding k_def[symmetric] self x_def by simp
  have mn: "cmp x y \<le> 0" if "y \<in># remaining s" for y
  proof -
    from remaining_member[OF that] obtain j where j: "j < k" "y \<in> set (run_rest s j)"
      unfolding k_def by auto
    then have jn: "run_rest s j \<noteq> []" by auto
    from win[OF j(1) jn] have xj: "cmp x (recs ! j) \<le> 0"
      unfolding beats_def f x_def by simp
    from so[OF j(1)] head[OF jn] have "\<forall>z\<in>set (tl (run_rest s j)). cmp (recs ! j) z \<le> 0"
      by (metis sorted_wrt.simps(2))
    moreover from j(2) head[OF jn] have "y = recs ! j \<or> y \<in> set (tl (run_rest s j))"
      by (metis set_ConsD)
    ultimately have "y = recs ! j \<or> cmp (recs ! j) y \<le> 0" by blast
    with xj tot show ?thesis unfolding total_order_cmp_def by blast
  qed
  from rd inv' rem mn show ?thesis by blast
qed

lemma read_n_correct:
  assumes tot: "total_order_cmp cmp"
  shows "read_inv cmp s \<Longrightarrow> size (remaining s) = n \<Longrightarrow>
         \<exists>ys s'. read_n cmp n s = Some (Inr (ys, s')) \<and> mset ys = remaining s \<and>
                  sorted_wrt (\<lambda>a b. cmp a b \<le> 0) ys"
proof (induction n arbitrary: s)
  case 0
  then show ?case by simp
next
  case (Suc n)
  from Suc.prems(2) have ne: "remaining s \<noteq> {#}" by auto
  from read_step[OF tot Suc.prems(1) ne]
  obtain x s1 where rd: "read cmp s = Some (Inr (x, s1))" and inv1: "read_inv cmp s1"
    and rem: "remaining s = add_mset x (remaining s1)"
    and mn: "\<forall>y\<in>#remaining s. cmp x y \<le> 0" by blast
  from Suc.prems(2) rem have "size (remaining s1) = n" by simp
  from Suc.IH[OF inv1 this]
  obtain ys s2 where rn: "read_n cmp n s1 = Some (Inr (ys, s2))" and ms: "mset ys = remaining s1"
    and st: "sorted_wrt (\<lambda>a b. cmp a b \<le> 0) ys" by blast
  have "read_n cmp (Suc n) s = Some (Inr (x # ys, s2))" using rd rn by simp
  moreover have "mset (x # ys) = remaining s" using ms rem by simp
  moreover have "\<forall>y\<in>set ys. cmp x y \<le> 0"
  proof
    fix y assume "y \<in> set ys"
    then have "y \<in># remaining s1" using ms by (metis set_mset_mset)
    then have "y \<in># remaining s" unfolding rem by simp
    with mn show "cmp x y \<le> 0" by blast
  qed
  then have "sorted_wrt (\<lambda>a b. cmp a b \<le> 0) (x # ys)" using st by simp
  ultimately show ?case by blast
qed

lemma sort_session_correct:
  assumes tot: "total_order_cmp cmp" and qs: "sorts_by cmp qs" and n: "0 < n" and xs: "xs \<noteq> []"
  shows "\<exists>ys. sort_session qs cmp n xs = Some (Inr ys) \<and> mset ys = mset xs \<and>
              sorted_wrt (\<lambda>a b. cmp a b \<le> 0) ys"
proof -
  from write_all_inv[OF qs n write_inv_new, of xs]
  obtain s1 where w: "write_all qs (new_sorter n) xs = Inr s1" and wi: "write_inv cmp n s1 xs"
    by auto
  note E = endWrite_files[OF qs wi xs]
  from beginRead_inv[OF tot E(2) E(3) E(4) E(5) E(6)]
  obtain s2 where b: "beginRead cmp (endWrite qs s1) = Inr s2" and ri: "read_inv cmp s2"
    and rem: "remaining s2 = mset xs" unfolding E(1) by blast
  have "size (remaining s2) = length xs" unfolding rem by simp
  from read_n_correct[OF tot ri this]
  obtain ys s3 where rn: "read_n cmp (length xs) s2 = Some (Inr (ys, s3))"
    and ms: "mset ys = remaining s2" and st: "sorted_wrt (\<lambda>a b. cmp a b \<le> 0) ys" by blast
  have "sort_session qs cmp n xs = Some (Inr ys)"
    unfolding sort_session_def using w b rn by simp
  with ms st rem show ?thesis by simp
qed

section \<open>External merge sorter: the examples\<close>

lemma int_cmp_total: "total_order_cmp int_cmp"
  unfolding total_order_cmp_def int_cmp_def by (auto split: if_splits)

lemma key_cmp_total: "total_order_cmp key_cmp"
  unfolding total_order_cmp_def key_cmp_def int_cmp_def by (auto split: if_splits)

lemma insert_by_mset: "mset (insert_by cmp x ys) = add_mset x (mset ys)"
  by (induction ys) simp_all

lemma insert_by_set: "set (insert_by cmp x ys) = insert x (set ys)"
  by (induction ys) auto

lemma insert_by_sorted:
  assumes tot: "total_order_cmp cmp"
  shows "sorted_wrt (\<lambda>a b. cmp a b \<le> 0) ys \<Longrightarrow> sorted_wrt (\<lambda>a b. cmp a b \<le> 0) (insert_by cmp x ys)"
proof (induction ys)
  case Nil
  then show ?case by simp
next
  case (Cons y ys)
  from tot have tr: "\<And>a b c. cmp a b \<le> 0 \<Longrightarrow> cmp b c \<le> 0 \<Longrightarrow> cmp a c \<le> 0"
    and tt: "\<And>a b. cmp a b \<le> 0 \<or> cmp b a \<le> 0"
    unfolding total_order_cmp_def by blast+
  show ?case
  proof (cases "cmp x y \<le> 0")
    case True
    then have "\<forall>z\<in>set ys. cmp x z \<le> 0" using Cons.prems tr by auto
    with True Cons.prems show ?thesis by simp
  next
    case False
    then have "cmp y x \<le> 0" using tt by blast
    moreover have "sorted_wrt (\<lambda>a b. cmp a b \<le> 0) (insert_by cmp x ys)"
      using Cons by simp
    ultimately show ?thesis using False Cons.prems by (simp add: insert_by_set)
  qed
qed

lemma isort_by_sorts: "total_order_cmp cmp \<Longrightarrow> sorts_by cmp (isort_by cmp)"
proof -
  assume tot: "total_order_cmp cmp"
  have "mset (foldr (insert_by cmp) xs []) = mset xs \<and>
        sorted_wrt (\<lambda>a b. cmp a b \<le> 0) (foldr (insert_by cmp) xs [])" for xs
    by (induction xs) (simp_all add: insert_by_mset insert_by_sorted[OF tot])
  then show ?thesis unfolding sorts_by_def isort_by_def by blast
qed

lemma s2_session:
  "sort_session (isort_by int_cmp) int_cmp 2 [5, 2, 9, 1, 7, 3] = Some (Inr [1, 2, 3, 5, 7, 9])"
  by code_simp

lemma tie_session:
  "sort_session (isort_by key_cmp) key_cmp 2 [(1, ''a''), (2, ''b''), (1, ''c''), (2, ''d'')]
     = Some (Inr [(1, ''a''), (1, ''c''), (2, ''d''), (2, ''b'')])"
  by code_simp

lemma tie_adjust:
  "adjust_loop key_cmp [(2, ''b''), (2, ''d'')] 3 1 [1, 0, 0, 1] = Some (Inr ([1, 0, 0, 1], 1))"
  by code_simp
section \<open>External merge sorter: ties\<close>

lemma build_step_snd_above:
  "i < p \<Longrightarrow> snd (build_step cmp recs i hw) ! p = snd hw ! p"
  by (cases hw) (simp add: build_step_def)

lemma build_loop_snd_above:
  "i < p \<Longrightarrow> snd (build_loop cmp recs i hw) ! p = snd hw ! p"
proof (induction i arbitrary: hw)
  case 0
  then show ?case by simp
next
  case (Suc i)
  then show ?case by (simp add: build_step_snd_above)
qed

lemma build_step_lengths:
  "length (fst (build_step cmp recs i hw)) = length (fst hw)"
  "length (snd (build_step cmp recs i hw)) = length (snd hw)"
  by (cases hw; simp add: build_step_def)+

lemma build_step_tie:
  assumes "i < length hp" "i < length winners"
    and "winners ! (2 * i) \<noteq> - 1" "winners ! (2 * i + 1) \<noteq> - 1"
    and "cmp (recs ! nat (winners ! (2 * i))) (recs ! nat (winners ! (2 * i + 1))) = 0"
  shows "snd (build_step cmp recs i (hp, winners)) ! i = winners ! (2 * i)"
    and "fst (build_step cmp recs i (hp, winners)) ! i = winners ! (2 * i + 1)"
  using assms by (simp_all add: build_step_def)

lemma build_loop_tie:
  "n < length (fst hw) \<Longrightarrow> n < length (snd hw) \<Longrightarrow> 1 \<le> i \<Longrightarrow> i \<le> n \<Longrightarrow>
   snd (build_loop cmp recs n hw) ! (2 * i) \<noteq> - 1 \<Longrightarrow>
   snd (build_loop cmp recs n hw) ! (2 * i + 1) \<noteq> - 1 \<Longrightarrow>
   cmp (recs ! nat (snd (build_loop cmp recs n hw) ! (2 * i)))
       (recs ! nat (snd (build_loop cmp recs n hw) ! (2 * i + 1))) = 0 \<Longrightarrow>
   snd (build_loop cmp recs n hw) ! i = snd (build_loop cmp recs n hw) ! (2 * i) \<and>
   fst (build_loop cmp recs n hw) ! i = snd (build_loop cmp recs n hw) ! (2 * i + 1)"
proof (induction n arbitrary: hw)
  case 0
  then show ?case by simp
next
  case (Suc n)
  define hw1 where "hw1 = build_step cmp recs (Suc n) hw"
  have bl: "build_loop cmp recs (Suc n) hw = build_loop cmp recs n hw1"
    unfolding hw1_def by simp
  have len: "n < length (fst hw1)" "n < length (snd hw1)"
    unfolding hw1_def build_step_lengths using Suc.prems(1,2) by simp_all
  show ?case
  proof (cases "i = Suc n")
    case False
    then have "i \<le> n" using Suc.prems(4) by simp
    from Suc.IH[OF len Suc.prems(3) this] Suc.prems(5,6,7) show ?thesis unfolding bl by blast
  next
    case True
    obtain hp winners where hw: "hw = (hp, winners)" by (cases hw)
    have a: "snd (build_loop cmp recs n hw1) ! p = snd hw1 ! p" if "n < p" for p
      by (rule build_loop_snd_above[OF that])
    have b: "fst (build_loop cmp recs n hw1) ! p = fst hw1 ! p" if "n < p" for p
      by (rule build_loop_above[OF that])
    have c: "snd hw1 ! p = winners ! p" if "Suc n < p" for p
      unfolding hw1_def using build_step_snd_above[OF that, of cmp recs hw] unfolding hw by simp
    have l: "2 * i = 2 * Suc n" "2 * i + 1 = 2 * Suc n + 1" using True by simp_all
    have k2: "snd (build_loop cmp recs n hw1) ! (2 * Suc n) = winners ! (2 * Suc n)"
      using a[of "2 * Suc n"] c[of "2 * Suc n"] by simp
    have k3: "snd (build_loop cmp recs n hw1) ! (2 * Suc n + 1) = winners ! (2 * Suc n + 1)"
      using a[of "2 * Suc n + 1"] c[of "2 * Suc n + 1"] by simp
    note pr = Suc.prems(5,6,7)[unfolded bl l k2 k3]
    have ln: "Suc n < length hp" "Suc n < length winners" using Suc.prems(1,2) unfolding hw by simp_all
    note T = build_step_tie[of "Suc n" hp winners cmp recs, OF ln pr, folded hw, folded hw1_def]
    have "snd (build_loop cmp recs n hw1) ! Suc n = winners ! (2 * Suc n)"
      using a[of "Suc n"] T(1) by simp
    moreover have "fst (build_loop cmp recs n hw1) ! Suc n = winners ! (2 * Suc n + 1)"
      using b[of "Suc n"] T(2) by simp
    ultimately show ?thesis unfolding bl True k2 k3 by simp
  qed
qed

lemma adjust_loop_tie:
  assumes "cur \<noteq> 1" "cur div 2 < length g" "is_run rs w" "is_run rs (g ! (cur div 2))"
    and "cmp (rs ! nat w) (rs ! nat (g ! (cur div 2))) = 0"
  shows "adjust_loop cmp rs cur w g = adjust_loop cmp rs (cur div 2) w g"
proof -
  have "w \<noteq> - 1" using assms(3) unfolding is_run_def by auto
  then show ?thesis using assms by (subst adjust_loop.simps) simp
qed

lemma tie_build:
  "build_loop key_cmp [(1, ''a''), (1, ''c'')] 1 ([0, 0, 0, 1], [0, 0, 0, 1]) = ([0, 1, 0, 1], [0, 0, 0, 1])"
  by code_simp

section \<open>External merge sorter: the claims\<close>

text \<open>
  Claim C1. For a comparator that is a total order and an input of at least one record,
  the session (\<open>write\<close> for every record, \<open>endWrite\<close>, \<open>beginRead\<close>, one \<open>read\<close> per
  record) returns, and the records read are a permutation of the input that is
  non-decreasing under the comparator. \<open>qsort_r\<close> is a parameter known to sort, and
  \<open>NUM_RECORD_PER_FILE\<close> is positive.
\<close>

theorem sort_session_sorted_permutation:
  assumes "total_order_cmp cmp" and "sorts_by cmp qs" and "0 < n" and "xs \<noteq> []"
  shows "\<exists>ys. sort_session qs cmp n xs = Some (Inr ys) \<and> length ys = length xs \<and>
              mset ys = mset xs \<and> sorted_wrt (\<lambda>a b. cmp a b \<le> 0) ys"
proof -
  from sort_session_correct[OF assms]
  obtain ys where *: "sort_session qs cmp n xs = Some (Inr ys)" "mset ys = mset xs"
    "sorted_wrt (\<lambda>a b. cmp a b \<le> 0) ys" by blast
  from *(2) have "length ys = length xs" by (metis size_mset)
  with * show ?thesis by blast
qed

theorem sort_session_sorted_permutation_witness:
  "sort_session (isort_by int_cmp) int_cmp 2 [5, 2, 9, 1, 7, 3] = Some (Inr [1, 2, 3, 5, 7, 9]) \<and>
   mset [1, 2, 3, 5, 7, 9 :: int] = mset [5, 2, 9, 1, 7, 3] \<and>
   sorted_wrt (\<lambda>a b. int_cmp a b \<le> 0) [1, 2, 3, 5, 7, 9]"
  using sort_session_sorted_permutation[OF int_cmp_total isort_by_sorts[OF int_cmp_total],
          of 2 "[5, 2, 9, 1, 7, 3]"] s2_session
  by auto

text \<open>
  Claim C7, as amended. In the bottom-up loop of \<open>beginRead\<close>, when the winners of the
  two children of a node compare equal, the winner of the left child wins the match and
  the winner of the right child is stored as the loser. In the loop of \<open>adjust\<close>, when the
  candidate coming up from the refilled leaf compares equal to the loser stored at the
  parent, the candidate wins and goes on, the stored loser stays: the positions of the
  two leaves play no part.
\<close>

theorem tie_won_by_left_child_in_build_by_candidate_in_adjust:
  "(n < length hp \<and> n < length winners \<and> 1 \<le> i \<and> i \<le> n \<and>
    build_loop cmp recs n (hp, winners) = (hp', winners') \<and>
    winners' ! (2 * i) \<noteq> - 1 \<and> winners' ! (2 * i + 1) \<noteq> - 1 \<and>
    cmp (recs ! nat (winners' ! (2 * i))) (recs ! nat (winners' ! (2 * i + 1))) = 0
    \<longrightarrow> winners' ! i = winners' ! (2 * i) \<and> hp' ! i = winners' ! (2 * i + 1)) \<and>
   (cur \<noteq> 1 \<and> cur div 2 < length g \<and> is_run rs w \<and> is_run rs (g ! (cur div 2)) \<and>
    cmp (rs ! nat w) (rs ! nat (g ! (cur div 2))) = 0
    \<longrightarrow> adjust_loop cmp rs cur w g = adjust_loop cmp rs (cur div 2) w g)"
proof (intro conjI impI)
  assume A: "n < length hp \<and> n < length winners \<and> 1 \<le> i \<and> i \<le> n \<and>
    build_loop cmp recs n (hp, winners) = (hp', winners') \<and>
    winners' ! (2 * i) \<noteq> - 1 \<and> winners' ! (2 * i + 1) \<noteq> - 1 \<and>
    cmp (recs ! nat (winners' ! (2 * i))) (recs ! nat (winners' ! (2 * i + 1))) = 0"
  then have e: "build_loop cmp recs n (hp, winners) = (hp', winners')" by blast
  from build_loop_tie[of n "(hp, winners)" i cmp recs, unfolded e] A
  show "winners' ! i = winners' ! (2 * i)" "hp' ! i = winners' ! (2 * i + 1)" by simp_all
next
  assume "cur \<noteq> 1 \<and> cur div 2 < length g \<and> is_run rs w \<and> is_run rs (g ! (cur div 2)) \<and>
    cmp (rs ! nat w) (rs ! nat (g ! (cur div 2))) = 0"
  then show "adjust_loop cmp rs cur w g = adjust_loop cmp rs (cur div 2) w g"
    using adjust_loop_tie by blast
qed

theorem tie_won_by_left_child_in_build_by_candidate_in_adjust_witness:
  "build_loop key_cmp [(1, ''a''), (1, ''c'')] 1 ([0, 0, 0, 1], [0, 0, 0, 1]) = ([0, 1, 0, 1], [0, 0, 0, 1]) \<and>
   key_cmp ([(1, ''a''), (1, ''c'')] ! 0) ([(1, ''a''), (1, ''c'')] ! 1) = 0 \<and>
   [0, 0, 0, 1 :: int] ! 1 = [0, 0, 0, 1] ! 2 \<and> [0, 1, 0, 1 :: int] ! 1 = [0, 0, 0, 1] ! 3 \<and>
   key_cmp ([(2, ''b''), (2, ''d'')] ! 1) ([(2, ''b''), (2, ''d'')] ! 0) = 0 \<and>
   adjust_loop key_cmp [(2, ''b''), (2, ''d'')] 3 1 [1, 0, 0, 1]
     = adjust_loop key_cmp [(2, ''b''), (2, ''d'')] 1 1 [1, 0, 0, 1]"
  using tie_won_by_left_child_in_build_by_candidate_in_adjust
          [of 1 "[0, 0, 0, 1]" "[0, 0, 0, 1]" 1 key_cmp "[(1, ''a''), (1, ''c'')]"
              "[0, 1, 0, 1]" "[0, 0, 0, 1]" 3 "[1, 0, 0, 1]" "[(2, ''b''), (2, ''d'')]" 1]
    tie_build
  by (simp add: key_cmp_def int_cmp_def is_run_def)

text \<open>
  Claim C7 as stated fails in \<open>adjust\<close>: with two runs whose current records \<open>(2, b)\<close>
  (run 0, the left leaf) and \<open>(2, d)\<close> (run 1, the right leaf, just refilled) compare
  equal, run 1 wins the match. This is the call of the loop in the second \<open>read\<close> of the
  session below, which returns \<open>(2, d)\<close> before \<open>(2, b)\<close>.
\<close>

theorem adjust_tie_won_by_right_leaf_counterexample:
  "key_cmp ([(2, ''b''), (2, ''d'')] ! 1) ([(2, ''b''), (2, ''d'')] ! 0) = 0 \<and>
   adjust_loop key_cmp [(2, ''b''), (2, ''d'')] 3 1 [1, 0, 0, 1] = Some (Inr ([1, 0, 0, 1], 1)) \<and>
   sort_session (isort_by key_cmp) key_cmp 2 [(1, ''a''), (2, ''b''), (1, ''c''), (2, ''d'')]
     = Some (Inr [(1, ''a''), (1, ''c''), (2, ''d''), (2, ''b'')])"
  using tie_adjust tie_session by (simp add: key_cmp_def int_cmp_def)

text \<open>
  Claim C9. When no record was written, \<open>endWrite\<close> leaves the fresh sorter as it is and
  \<open>beginRead\<close> computes \<open>std::ceil(std::log2(0))\<close>: minus infinity, whose conversion to
  \<open>int\<close> is undefined. \<open>beginRead\<close> does not end normally.
\<close>

theorem beginRead_without_records_undefined:
  "beginRead cmp (endWrite qs (new_sorter n)) = Inl UndefinedConversion \<and>
   sort_session qs cmp n [] = Some (Inl UndefinedConversion)"
  by (simp add: sort_session_def beginRead_def endWrite_def new_sorter_def height_of_def)
end
